theory Spec2Isabelle
  imports Main "HOL-Library.Word"
begin

text \<open>
  The synchronisation code of the node, as functions on explicit states: the header sync
  protocol of \<open>protocol_header_sync.cpp\<close>, the block sync session of
  \<open>session_block_sync.cpp\<close>, and the command loop of the console in \<open>dispatch.cpp\<close>.
  A handler takes the state of its object and returns the calls it makes to the outside
  together with the new state; where the C++ has undefined behaviour, the result is
  \<open>None\<close>.
\<close>

section \<open>Data model\<close>

text \<open>
  The node is compiled for a 64-bit target: \<open>size_t\<close> is a 64-bit unsigned integer whose
  arithmetic wraps around, \<open>uint32_t\<close> a 32-bit one. A \<open>hash_digest\<close> is an array of
  32 bytes, that is 256 bits; the protocol only ever compares digests for equality.
\<close>

type_synonym size_t = "64 word"
type_synonym uint32_t = "32 word"
type_synonym hash_digest = "256 word"
type_synonym hash_list = "hash_digest list"

definition null_hash :: hash_digest where
  "null_hash = 0"

text \<open>\<open>std::vector::size()\<close>: the number of elements as a \<open>size_t\<close>.\<close>

definition size_of :: "'a list \<Rightarrow> size_t" where
  "size_of xs = of_nat (length xs)"

text \<open>
  \<open>std::vector::back()\<close>: the last element; calling it on an empty vector is undefined
  behaviour, which the model reports as \<open>None\<close>.
\<close>

definition back_of :: "'a list \<Rightarrow> 'a option" where
  "back_of xs = (if xs = [] then None else Some (last xs))"

text \<open>
  \<open>std::vector::resize(n)\<close> on a vector of digests: truncates to \<open>n\<close> elements, or pads
  with value-initialised (all zero) digests.
\<close>

definition resize :: "nat \<Rightarrow> hash_list \<Rightarrow> hash_list" where
  "resize n xs = take n xs @ replicate (n - length xs) null_hash"

text \<open>
  \<open>std::find\<close> over a vector: the position of the first element equal to the value, or
  \<open>None\<close> for the end iterator.
\<close>

fun std_find :: "hash_list \<Rightarrow> hash_digest \<Rightarrow> nat option" where
  "std_find [] h = None"
| "std_find (x # xs) h = (if x = h then Some 0 else map_option Suc (std_find xs h))"

text \<open>The error codes the sync code names, and any other code of the network library.\<close>

datatype code =
    success
  | channel_stopped
  | channel_timeout
  | previous_block_invalid
  | operation_failed
  | other_error nat

text \<open>A configured checkpoint: \<open>height()\<close> and \<open>hash()\<close>.\<close>

record checkpoint =
  height :: size_t
  hash :: hash_digest

text \<open>
  A block header as the header sync reads it: the \<open>previous_block_hash\<close> member and the
  digest that \<open>block.hash()\<close> computes from the header.
\<close>

record header =
  previous_block_hash :: hash_digest
  header_hash :: hash_digest

text \<open>The \<open>headers\<close> message.\<close>

record headers =
  elements :: "header list"

text \<open>
  Modelled from the spec: \<open>checkpoint::validate\<close> belongs to the configuration library
  and is not part of the node's sources. It holds iff either no checkpoint exists at that
  exact height, or the one at that height matches the hash; checkpoints at other heights
  impose no constraint.
\<close>

definition validate :: "hash_digest \<Rightarrow> size_t \<Rightarrow> checkpoint list \<Rightarrow> bool" where
  "validate h n cps = (\<not> list_ex (\<lambda>c. height c = n \<and> hash c \<noteq> h) cps)"

section \<open>The header sync protocol\<close>

text \<open>
  The members of \<open>protocol_header_sync\<close>, with the types of the constructor's parameters
  and initialisers, and \<open>stopped\<close> for the \<open>stopped()\<close> state of the channel the
  protocol is attached to. The counter \<open>current_second_\<close> is a \<open>size_t\<close> like the rate
  that \<open>current_rate\<close> computes from it.
\<close>

record protocol_header_sync =
  hashes :: hash_list
  current_second :: size_t
  minimum_rate :: uint32_t
  start_size :: size_t
  first_height :: size_t
  target_height :: size_t
  checkpoints :: "checkpoint list"
  stopped :: bool

definition full_headers :: size_t where
  "full_headers = 2000"

definition target :: "size_t \<Rightarrow> hash_list \<Rightarrow> checkpoint list \<Rightarrow> size_t" where
  "target fh hs cps =
     (let current_block = fh + size_of hs - 1
      in if cps = [] then current_block else max (height (last cps)) current_block)"

text \<open>
  The constructor. \<open>BITCOIN_ASSERT_MSG(!hashes_.empty(), ...)\<close> is its precondition: on
  an empty seed the assertion fails, and the construction has no result.
\<close>

definition construct ::
  "uint32_t \<Rightarrow> size_t \<Rightarrow> hash_list \<Rightarrow> checkpoint list \<Rightarrow> protocol_header_sync option" where
  "construct rate fh hs cps =
     (if hs = [] then None
      else Some \<lparr>hashes = hs, current_second = 0, minimum_rate = rate,
                 start_size = size_of hs, first_height = fh,
                 target_height = target fh hs cps, checkpoints = cps,
                 stopped = False\<rparr>)"

definition next_height :: "protocol_header_sync \<Rightarrow> size_t" where
  "next_height s = size_of (hashes s) + first_height s"

text \<open>
  The loop of \<open>rollback\<close> over the checkpoints, taken in the order of the reverse
  iterator: the first checkpoint whose hash \<open>std::find\<close> finds decides, and everything
  after the match is erased.
\<close>

fun rollback_scan :: "checkpoint list \<Rightarrow> hash_list \<Rightarrow> hash_list option" where
  "rollback_scan [] hs = None"
| "rollback_scan (c # cs) hs =
     (case std_find hs (hash c) of
        Some i \<Rightarrow> Some (take (Suc i) hs)
      | None \<Rightarrow> rollback_scan cs hs)"

definition rollback_hashes :: "checkpoint list \<Rightarrow> hash_list \<Rightarrow> hash_list" where
  "rollback_hashes cps hs =
     (case (if cps \<noteq> [] then rollback_scan (rev cps) hs else None) of
        Some hs' \<Rightarrow> hs'
      | None \<Rightarrow> resize 1 hs)"

definition rollback :: "protocol_header_sync \<Rightarrow> protocol_header_sync" where
  "rollback s = s\<lparr>hashes := rollback_hashes (checkpoints s) (hashes s)\<rparr>"

text \<open>
  What a handler does to the outside: \<open>handler\<close> is the call of the session's
  completion handler with a code, \<open>get_headers\<close> the subscription to the next
  \<open>headers\<close> message together with the sending of the \<open>get_headers\<close> packet (locator
  and stop hash), \<open>start_timer\<close> and \<open>reset_timer\<close> the calls into the protocol timer.
\<close>

datatype action =
    handler code
  | get_headers "hash_digest list" hash_digest
  | start_timer
  | reset_timer

text \<open>
  \<open>headers_complete\<close> calls the session's handler with the code and then stops the
  channel. \<open>complete\<close> is the handler that \<open>start\<close> binds to it, for a single call: the
  model describes that call, and a channel that is not stopped has not seen it.
\<close>

definition headers_complete ::
  "code \<Rightarrow> protocol_header_sync \<Rightarrow> action list \<times> protocol_header_sync" where
  "headers_complete ec s = ([handler ec], s\<lparr>stopped := True\<rparr>)"

definition complete :: "code \<Rightarrow> protocol_header_sync \<Rightarrow> action list \<times> protocol_header_sync" where
  "complete ec s = headers_complete ec s"

definition send_get_headers ::
  "protocol_header_sync \<Rightarrow> (action list \<times> protocol_header_sync) option" where
  "send_get_headers s =
     (if stopped s then Some ([], s)
      else case back_of (hashes s) of
             None \<Rightarrow> None
           | Some h \<Rightarrow> Some ([get_headers [h] null_hash], s))"

text \<open>\<open>start\<close>, given the \<open>start_height\<close> of the peer's version message.\<close>

definition start ::
  "uint32_t \<Rightarrow> protocol_header_sync \<Rightarrow> (action list \<times> protocol_header_sync) option" where
  "start peer_start_height s =
     (if ucast peer_start_height < target_height s then Some ([handler channel_stopped], s)
      else case send_get_headers s of
             None \<Rightarrow> None
           | Some (acts, s') \<Rightarrow> Some (start_timer # acts, s'))"

definition handle_send ::
  "code \<Rightarrow> protocol_header_sync \<Rightarrow> action list \<times> protocol_header_sync" where
  "handle_send ec s =
     (if stopped s then ([], s)
      else if ec \<noteq> success then complete ec s
      else ([], s))"

text \<open>
  The loop of \<open>merge_headers\<close> over the elements of the message, with the local
  \<open>previous\<close> and the protocol state it updates.
\<close>

fun merge_loop ::
  "header list \<Rightarrow> hash_digest \<Rightarrow> protocol_header_sync \<Rightarrow> bool \<times> protocol_header_sync" where
  "merge_loop [] previous s = (True, s)"
| "merge_loop (block # rest) previous s =
     (let current = header_hash block
      in if previous_block_hash block \<noteq> previous \<or>
            \<not> validate current (next_height s) (checkpoints s)
         then (False, rollback s)
         else merge_loop rest current (s\<lparr>hashes := hashes s @ [current]\<rparr>))"

definition merge_headers ::
  "headers \<Rightarrow> protocol_header_sync \<Rightarrow> (bool \<times> protocol_header_sync) option" where
  "merge_headers message s =
     (case back_of (hashes s) of
        None \<Rightarrow> None
      | Some previous \<Rightarrow> Some (merge_loop (elements message) previous s))"

definition handle_receive ::
  "code \<Rightarrow> headers \<Rightarrow> protocol_header_sync \<Rightarrow> (action list \<times> protocol_header_sync) option" where
  "handle_receive ec message s =
     (if stopped s then Some ([], s)
      else if ec \<noteq> success then Some (complete ec s)
      else case merge_headers message s of
             None \<Rightarrow> None
           | Some (merged, s') \<Rightarrow>
               if \<not> merged then Some (complete previous_block_invalid s')
               else if full_headers \<le> size_of (elements message) then send_get_headers s'
               else Some (complete (if target_height s' < next_height s'
                                    then success else operation_failed) s'))"

text \<open>\<open>current_rate\<close>; the division by a zero \<open>current_second_\<close> is undefined behaviour.\<close>

definition current_rate :: "protocol_header_sync \<Rightarrow> size_t option" where
  "current_rate s =
     (if current_second s = 0 then None
      else Some ((size_of (hashes s) - start_size s) div current_second s))"

definition handle_event ::
  "code \<Rightarrow> protocol_header_sync \<Rightarrow> (action list \<times> protocol_header_sync) option" where
  "handle_event ec s =
     (if ec = channel_stopped then Some (complete ec s)
      else if ec \<noteq> success \<and> ec \<noteq> channel_timeout then Some (complete ec s)
      else let s' = s\<lparr>current_second := current_second s + 1\<rparr>
           in case current_rate s' of
                None \<Rightarrow> None
              | Some rate \<Rightarrow>
                  if rate < ucast (minimum_rate s') then Some (complete channel_timeout s')
                  else Some ([reset_timer], s'))"

text \<open>
  A run of the protocol: the callbacks that the channel and the timer deliver after
  construction, one at a time. A run that meets undefined behaviour has no result.
\<close>

datatype event =
    started uint32_t
  | sent code
  | received code headers
  | timer code

fun deliver :: "event \<Rightarrow> protocol_header_sync \<Rightarrow> (action list \<times> protocol_header_sync) option" where
  "deliver (started h) s = start h s"
| "deliver (sent ec) s = Some (handle_send ec s)"
| "deliver (received ec message) s = handle_receive ec message s"
| "deliver (timer ec) s = handle_event ec s"

fun run :: "event list \<Rightarrow> protocol_header_sync \<Rightarrow> protocol_header_sync option" where
  "run [] s = Some s"
| "run (e # es) s = (case deliver e s of None \<Rightarrow> None | Some (acts, s') \<Rightarrow> run es s')"

text \<open>
  Element \<open>k\<close> of a message fails when, with the hashes of the elements before it
  appended to the list, its \<open>previous_block_hash\<close> is not the last hash of the list,
  or its own hash does not validate at the height it would occupy: the first height plus
  the number of hashes then in the list, in \<open>size_t\<close>.
\<close>

definition header_fails :: "protocol_header_sync \<Rightarrow> header list \<Rightarrow> nat \<Rightarrow> bool" where
  "header_fails s blocks k =
     (let block = blocks ! k
      in previous_block_hash block \<noteq> last (hashes s @ map header_hash (take k blocks)) \<or>
         \<not> validate (header_hash block)
             (first_height s + of_nat (length (hashes s) + k)) (checkpoints s))"

text \<open>
  What a run of the protocol never changes: the members that are \<open>const\<close> or written by
  the constructor only.
\<close>

definition same_setup :: "protocol_header_sync \<Rightarrow> protocol_header_sync \<Rightarrow> bool" where
  "same_setup s s' \<longleftrightarrow>
     minimum_rate s' = minimum_rate s \<and> start_size s' = start_size s \<and>
     first_height s' = first_height s \<and> target_height s' = target_height s \<and>
     checkpoints s' = checkpoints s"

text \<open>
  A message of \<open>n\<close> headers that link to each other and to the digest \<open>h\<close>: the first
  names \<open>h\<close> as its previous block and hashes to \<open>h + 1\<close>, and so on.
\<close>

fun linked_headers :: "nat \<Rightarrow> hash_digest \<Rightarrow> header list" where
  "linked_headers 0 h = []"
| "linked_headers (Suc n) h =
     \<lparr>previous_block_hash = h, header_hash = h + 1\<rparr> # linked_headers n (h + 1)"

section \<open>The block sync session\<close>

text \<open>
  The members of \<open>session_block_sync\<close> that its handlers read and write: the vote
  counter (a \<open>size_t\<close>), the configured \<open>node.quorum\<close> (32 bits wide), and the
  \<open>stopped()\<close> state of the session.
\<close>

record session_block_sync =
  votes :: size_t
  quorum :: uint32_t
  session_stopped :: bool

text \<open>
  The asynchronous operations a handler of the session starts, and the call of the
  session's own result handler. \<open>fetch_address\<close> calls back \<open>start_syncing\<close>,
  \<open>connect\<close> calls back \<open>handle_connect\<close>, \<open>register_channel\<close> calls back
  \<open>handle_channel_start\<close> and \<open>attach_block_sync\<close> (the start of the block sync
  protocol on the channel) calls back \<open>handle_complete\<close>.
\<close>

datatype operation =
    fetch_address
  | connect
  | register_channel
  | attach_ping
  | attach_address
  | attach_block_sync
  | session_handler code

definition new_connection :: "session_block_sync \<Rightarrow> operation list \<times> session_block_sync" where
  "new_connection s = (if session_stopped s then ([], s) else ([fetch_address], s))"

definition handle_started ::
  "code \<Rightarrow> session_block_sync \<Rightarrow> operation list \<times> session_block_sync" where
  "handle_started ec s =
     (if ec \<noteq> success then ([session_handler ec], s)
      else new_connection (s\<lparr>votes := 0\<rparr>))"

definition start_syncing ::
  "code \<Rightarrow> session_block_sync \<Rightarrow> operation list \<times> session_block_sync" where
  "start_syncing ec s = ([connect], s)"

definition handle_connect ::
  "code \<Rightarrow> session_block_sync \<Rightarrow> operation list \<times> session_block_sync" where
  "handle_connect ec s =
     (if ec \<noteq> success then new_connection s else ([register_channel], s))"

definition handle_complete ::
  "code \<Rightarrow> session_block_sync \<Rightarrow> operation list \<times> session_block_sync" where
  "handle_complete ec s =
     (let s' = (if ec = success then s\<lparr>votes := votes s + 1\<rparr> else s)
      in if ec \<noteq> success \<or> votes s' < ucast (quorum s') then new_connection s'
         else ([session_handler success], s'))"

definition handle_channel_start ::
  "code \<Rightarrow> session_block_sync \<Rightarrow> operation list \<times> session_block_sync" where
  "handle_channel_start ec s =
     (if ec \<noteq> success then handle_complete ec s
      else ([attach_ping, attach_address, attach_block_sync], s))"

text \<open>
  The successive completions of the block sync protocol on the session's channels:
  \<open>handle_complete\<close> for each code in turn, until the session's handler is called.
  The result tells whether the handler was called with \<open>success\<close>.
\<close>

fun completions :: "code list \<Rightarrow> session_block_sync \<Rightarrow> bool \<times> session_block_sync" where
  "completions [] s = (False, s)"
| "completions (ec # ecs) s =
     (case handle_complete ec s of
        (ops, s') \<Rightarrow>
          if session_handler success \<in> set ops then (True, s') else completions ecs s')"

text \<open>
  The session with its operations in flight. An operation in flight is one whose
  completion calls back into the session; the ping and address protocols and the call of
  the result handler do not. \<open>reported\<close> collects the codes given to the session's
  result handler.
\<close>

fun calls_back :: "operation \<Rightarrow> bool" where
  "calls_back fetch_address = True"
| "calls_back connect = True"
| "calls_back register_channel = True"
| "calls_back attach_block_sync = True"
| "calls_back attach_ping = False"
| "calls_back attach_address = False"
| "calls_back (session_handler ec) = False"

fun callback :: "operation \<Rightarrow> code \<Rightarrow> session_block_sync \<Rightarrow> operation list \<times> session_block_sync" where
  "callback fetch_address ec s = start_syncing ec s"
| "callback connect ec s = handle_connect ec s"
| "callback register_channel ec s = handle_channel_start ec s"
| "callback attach_block_sync ec s = handle_complete ec s"
| "callback attach_ping ec s = ([], s)"
| "callback attach_address ec s = ([], s)"
| "callback (session_handler c) ec s = ([], s)"

fun reports :: "operation list \<Rightarrow> code list" where
  "reports [] = []"
| "reports (session_handler ec # ops) = ec # reports ops"
| "reports (_ # ops) = reports ops"

record session_state =
  session :: session_block_sync
  in_flight :: "operation list"
  reported :: "code list"

definition launch :: "operation list \<times> session_block_sync \<Rightarrow> session_state \<Rightarrow> session_state" where
  "launch r c =
     \<lparr>session = snd r,
      in_flight = in_flight c @ filter calls_back (fst r),
      reported = reported c @ reports (fst r)\<rparr>"

text \<open>
  What happens to a session: any operation in flight may complete, with any code (the
  operation is named by its position), and the session may be stopped from outside.
\<close>

datatype session_event =
    completes nat code
  | stop

fun session_step :: "session_event \<Rightarrow> session_state \<Rightarrow> session_state" where
  "session_step (completes i ec) c =
     (if i < length (in_flight c)
      then launch (callback (in_flight c ! i) ec (session c))
             (c\<lparr>in_flight := take i (in_flight c) @ drop (Suc i) (in_flight c)\<rparr>)
      else c)"
| "session_step stop c = c\<lparr>session := (session c)\<lparr>session_stopped := True\<rparr>\<rparr>"

definition session_start :: "code \<Rightarrow> session_block_sync \<Rightarrow> session_state" where
  "session_start ec s =
     launch (handle_started ec s) \<lparr>session = s, in_flight = [], reported = []\<rparr>"

fun session_run :: "session_event list \<Rightarrow> session_state \<Rightarrow> session_state" where
  "session_run [] c = c"
| "session_run (e # es) c = session_run es (session_step e c)"

text \<open>
  The session is serial when at most one operation is in flight, every operation in
  flight is one that calls back, and exactly one is in flight as long as the session is
  not stopped and has not called its result handler.
\<close>

definition serial :: "session_state \<Rightarrow> bool" where
  "serial c \<longleftrightarrow>
     length (in_flight c) \<le> 1 \<and> list_all calls_back (in_flight c) \<and>
     (\<not> session_stopped (session c) \<and> reported c = [] \<longrightarrow> length (in_flight c) = 1)"

section \<open>The console\<close>

text \<open>
  \<open>boost::trim_copy\<close> removes the leading and trailing characters that \<open>std::isspace\<close>
  classifies as white space in the classic locale.
\<close>

definition is_space :: "char \<Rightarrow> bool" where
  "is_space c = (c \<in> set [CHR '' '', CHR 0x09, CHR 0x0A, CHR 0x0B, CHR 0x0C, CHR 0x0D])"

definition trim_copy :: "string \<Rightarrow> string" where
  "trim_copy s = rev (dropWhile is_space (rev (dropWhile is_space s)))"

text \<open>
  The characters of the string literal \<open>"\0x03"\<close>: the escape \<open>\0\<close> is the NUL
  character, followed by the three characters \<open>x03\<close>.
\<close>

definition literal_0x03 :: string where
  "literal_0x03 = [CHR 0x00, CHR ''x'', CHR ''0'', CHR ''3'']"

text \<open>
  \<open>operator==\<close> of a \<open>std::string\<close> and a \<open>const char*\<close>: the pointer is read as a C
  string, which ends before its first NUL character.
\<close>

definition c_str :: "string \<Rightarrow> string" where
  "c_str s = takeWhile (\<lambda>c. c \<noteq> CHR 0x00) s"

definition equals_c_str :: "string \<Rightarrow> string \<Rightarrow> bool" where
  "equals_c_str command literal = (command = c_str literal)"

text \<open>
  One pass through the body of the command loop of \<open>dispatch\<close> on the line that
  \<open>getline\<close> read: the loop is left for the shutdown, or the trimmed line is given to
  \<open>payment_address\<close> (a parameter: the wallet library decides which strings are
  addresses) and either rejected or looked up.
\<close>

datatype 'a command_result =
    shutting_down
  | invalid_address
  | fetch_history 'a

definition command_step :: "(string \<Rightarrow> 'a option) \<Rightarrow> string \<Rightarrow> 'a command_result" where
  "command_step payment_address command =
     (let trimmed = trim_copy command
      in if equals_c_str command literal_0x03 \<or> trimmed = ''stop'' then shutting_down
         else case payment_address trimmed of
                None \<Rightarrow> invalid_address
              | Some address \<Rightarrow> fetch_history address)"

section \<open>Scenarios\<close>

text \<open>
  The states and messages of the scenarios that the theorems below are tried on. Digests
  are written as small numbers: 10 stands for the starting hash, 11, 12 and 13 for the
  hashes of the three headers that follow it.
\<close>

text \<open>A protocol constructed at height 0 on the starting hash alone, without checkpoints.\<close>

definition seed_state :: protocol_header_sync where
  "seed_state =
     \<lparr>hashes = [10], current_second = 0, minimum_rate = 10, start_size = 1,
      first_height = 0, target_height = 0, checkpoints = [], stopped = False\<rparr>"

text \<open>A protocol constructed on four hashes with a checkpoint for the third.\<close>

definition checkpoint_state :: protocol_header_sync where
  "checkpoint_state =
     \<lparr>hashes = [10, 11, 12, 13], current_second = 0, minimum_rate = 10, start_size = 4,
      first_height = 0, target_height = 3, checkpoints = [\<lparr>height = 2, hash = 12\<rparr>],
      stopped = False\<rparr>"

text \<open>Two headers of which the first does not link to the hash 13.\<close>

definition unlinked_message :: headers where
  "unlinked_message =
     \<lparr>elements = [\<lparr>previous_block_hash = 99, header_hash = 14\<rparr>,
                 \<lparr>previous_block_hash = 14, header_hash = 15\<rparr>]\<rparr>"

text \<open>
  A protocol constructed on three hashes, with a checkpoint for the third and one for the
  height 4, and a message of two linked headers of which the second, at the height 4,
  does not hash to the checkpoint.
\<close>

definition ahead_state :: protocol_header_sync where
  "ahead_state =
     \<lparr>hashes = [10, 11, 12], current_second = 0, minimum_rate = 10, start_size = 3,
      first_height = 0, target_height = 4,
      checkpoints = [\<lparr>height = 2, hash = 12\<rparr>, \<lparr>height = 4, hash = 14\<rparr>],
      stopped = False\<rparr>"

definition mismatching_message :: headers where
  "mismatching_message =
     \<lparr>elements = [\<lparr>previous_block_hash = 12, header_hash = 13\<rparr>,
                 \<lparr>previous_block_hash = 13, header_hash = 77\<rparr>]\<rparr>"

text \<open>A protocol constructed like the first, but with a minimum rate of 1000.\<close>

definition rated_state :: protocol_header_sync where
  "rated_state =
     \<lparr>hashes = [10], current_second = 0, minimum_rate = 1000, start_size = 1,
      first_height = 0, target_height = 0, checkpoints = [], stopped = False\<rparr>"

section \<open>Rollback\<close>

lemma std_find_Some_less: "std_find hs h = Some i \<Longrightarrow> i < length hs"
  by (induction hs arbitrary: i) (auto split: if_splits)

lemma std_find_None_iff: "std_find hs h = None \<longleftrightarrow> h \<notin> set hs"
  by (induction hs) auto

lemma std_find_take:
  "std_find hs h = Some i \<Longrightarrow> std_find (take (Suc i) hs) h = Some i"
  by (induction hs arbitrary: i) (auto split: if_splits)

lemma std_find_take_None:
  "std_find hs h = None \<Longrightarrow> std_find (take n hs) h = None"
  by (auto simp: std_find_None_iff dest: in_set_takeD)

lemma std_find_nth: "std_find hs h = Some i \<Longrightarrow> hs ! i = h \<and> h \<notin> set (take i hs)"
  by (induction hs arbitrary: i) (auto split: if_splits)

lemma rollback_scan_prefix: "rollback_scan cs hs = Some hs' \<Longrightarrow> \<exists>n. hs' = take n hs"
  by (induction cs) (auto split: option.splits)

lemma rollback_scan_idem:
  "rollback_scan cs hs = Some hs' \<Longrightarrow> rollback_scan cs hs' = Some hs'"
proof (induction cs)
  case Nil
  then show ?case by simp
next
  case (Cons c cs)
  show ?case
  proof (cases "std_find hs (hash c)")
    case None
    with Cons.prems have scan: "rollback_scan cs hs = Some hs'" by simp
    then obtain n where "hs' = take n hs" using rollback_scan_prefix by blast
    with None have "std_find hs' (hash c) = None" by (simp add: std_find_take_None)
    with Cons.IH [OF scan] show ?thesis by simp
  next
    case (Some i)
    with Cons.prems have "hs' = take (Suc i) hs" by simp
    with Some show ?thesis by (simp add: std_find_take)
  qed
qed

lemma rollback_scan_nonempty: "rollback_scan cs hs = Some hs' \<Longrightarrow> hs' \<noteq> []"
  by (induction cs) (auto split: option.splits dest: std_find_Some_less)

lemma resize_one_length: "length (resize (Suc 0) hs) = Suc 0"
  by (cases hs) (simp_all add: resize_def)

lemma resize_one_single: "length hs = Suc 0 \<Longrightarrow> resize (Suc 0) hs = hs"
  by (simp add: resize_def)

lemma rollback_scan_single:
  "length hs = Suc 0 \<Longrightarrow> rollback_scan cs hs = Some hs' \<Longrightarrow> hs' = hs"
  by (induction cs) (auto split: option.splits dest: std_find_Some_less)

lemma rollback_hashes_single: "length hs = Suc 0 \<Longrightarrow> rollback_hashes cps hs = hs"
  by (auto simp: rollback_hashes_def resize_one_single split: option.splits
      dest: rollback_scan_single)

lemma rollback_hashes_idem:
  "rollback_hashes cps (rollback_hashes cps hs) = rollback_hashes cps hs"
proof (cases "if cps \<noteq> [] then rollback_scan (rev cps) hs else None")
  case None
  then have "rollback_hashes cps hs = resize 1 hs" by (simp add: rollback_hashes_def)
  then show ?thesis by (simp add: rollback_hashes_single resize_one_length)
next
  case (Some hs')
  then have ne: "cps \<noteq> []" and scan: "rollback_scan (rev cps) hs = Some hs'"
    by (auto split: if_splits)
  then have "rollback_hashes cps hs = hs'" by (simp add: rollback_hashes_def)
  moreover from ne rollback_scan_idem [OF scan] have "rollback_hashes cps hs' = hs'"
    by (simp add: rollback_hashes_def)
  ultimately show ?thesis by simp
qed

lemma rollback_hashes_nonempty: "rollback_hashes cps hs \<noteq> []"
  using resize_one_length [of hs]
  by (auto simp: rollback_hashes_def split: option.splits dest: rollback_scan_nonempty)

text \<open>
  Claim C7. For every content of the hash list and every checkpoint list, applying
  \<open>rollback\<close> twice in succession, with no \<open>merge_headers\<close> in between, yields the same
  hash list (indeed the same protocol state) as applying it once.
\<close>

theorem rollback_idempotent:
  "rollback_hashes cps (rollback_hashes cps hs) = rollback_hashes cps hs \<and>
   rollback (rollback s) = rollback s"
  by (simp add: rollback_def rollback_hashes_idem)

text \<open>
  The scenario of a rollback to a checkpoint: with the checkpoint \<open>(2, H2)\<close> the list
  \<open>[G, H1, H2, H3]\<close> is rolled back to \<open>[G, H1, H2]\<close>, and a second rollback changes
  nothing.
\<close>

theorem rollback_idempotent_witness:
  "rollback_hashes [\<lparr>height = 2, hash = 12\<rparr>] [10, 11, 12, 13] = [10, 11, 12] \<and>
   rollback_hashes [\<lparr>height = 2, hash = 12\<rparr>]
     (rollback_hashes [\<lparr>height = 2, hash = 12\<rparr>] [10, 11, 12, 13]) = [10, 11, 12]"
  using rollback_idempotent [of "[\<lparr>height = 2, hash = 12\<rparr>]" "[10, 11, 12, 13]"]
  by (simp add: rollback_hashes_def)

section \<open>Runs of the header sync protocol\<close>

lemma complete_eq: "complete ec s = ([handler ec], s\<lparr>stopped := True\<rparr>)"
  by (simp add: complete_def headers_complete_def)

lemma rollback_fields [simp]:
  "current_second (rollback s) = current_second s"
  "minimum_rate (rollback s) = minimum_rate s"
  "start_size (rollback s) = start_size s"
  "first_height (rollback s) = first_height s"
  "target_height (rollback s) = target_height s"
  "checkpoints (rollback s) = checkpoints s"
  "stopped (rollback s) = stopped s"
  by (simp_all add: rollback_def)

lemma rollback_nonempty: "hashes (rollback s) \<noteq> []"
  by (simp add: rollback_def rollback_hashes_nonempty)

lemma merge_loop_True:
  "merge_loop bs previous s = (True, s') \<Longrightarrow> s' = s\<lparr>hashes := hashes s @ map header_hash bs\<rparr>"
proof (induction bs arbitrary: previous s)
  case Nil
  then show ?case by simp
next
  case (Cons b bs)
  from Cons.prems
  have "merge_loop bs (header_hash b) (s\<lparr>hashes := hashes s @ [header_hash b]\<rparr>) = (True, s')"
    by (auto simp: Let_def split: if_splits)
  from Cons.IH [OF this] show ?case by simp
qed

lemma merge_loop_False:
  "merge_loop bs previous s = (False, s') \<Longrightarrow>
   \<exists>k < length bs. s' = rollback (s\<lparr>hashes := hashes s @ map header_hash (take k bs)\<rparr>)"
proof (induction bs arbitrary: previous s)
  case Nil
  then show ?case by simp
next
  case (Cons b bs)
  show ?case
  proof (cases "previous_block_hash b \<noteq> previous \<or>
      \<not> validate (header_hash b) (next_height s) (checkpoints s)")
    case True
    with Cons.prems have "s' = rollback s" by (auto simp: Let_def)
    then have "s' = rollback (s\<lparr>hashes := hashes s @ map header_hash (take 0 (b # bs))\<rparr>)"
      by simp
    then show ?thesis by blast
  next
    case False
    with Cons.prems
    have "merge_loop bs (header_hash b) (s\<lparr>hashes := hashes s @ [header_hash b]\<rparr>) = (False, s')"
      by (auto simp: Let_def)
    from Cons.IH [OF this] obtain k where k: "k < length bs"
      and s': "s' = rollback (s\<lparr>hashes := hashes s @ [header_hash b] @ map header_hash (take k bs)\<rparr>)"
      by auto
    from s' have "s' = rollback (s\<lparr>hashes := hashes s @ map header_hash (take (Suc k) (b # bs))\<rparr>)"
      by simp
    with k show ?thesis by (metis Suc_less_eq length_Cons)
  qed
qed

lemma merge_loop_nonempty: "merge_loop bs previous s = (b, s') \<Longrightarrow> hashes s \<noteq> [] \<Longrightarrow> hashes s' \<noteq> []"
  by (cases b) (auto dest!: merge_loop_True merge_loop_False simp: rollback_nonempty)

lemma merge_loop_same_setup: "merge_loop bs previous s = (b, s') \<Longrightarrow> same_setup s s'"
  by (cases b) (auto dest!: merge_loop_True merge_loop_False simp: same_setup_def)

lemma merge_loop_stopped: "merge_loop bs previous s = (b, s') \<Longrightarrow> stopped s' = stopped s"
  by (cases b) (auto dest!: merge_loop_True merge_loop_False)

lemma deliver_nonempty:
  "deliver e s = Some (acts, s') \<Longrightarrow> hashes s \<noteq> [] \<Longrightarrow> hashes s' \<noteq> []"
  by (cases e)
     (auto simp: start_def send_get_headers_def handle_send_def complete_eq
        handle_receive_def merge_headers_def handle_event_def Let_def
        split: if_splits option.splits prod.splits dest: merge_loop_nonempty)

lemma deliver_same_setup:
  "deliver e s = Some (acts, s') \<Longrightarrow> same_setup s s'"
  by (cases e)
     (auto simp: start_def send_get_headers_def handle_send_def complete_eq
        handle_receive_def merge_headers_def handle_event_def Let_def same_setup_def
        split: if_splits option.splits prod.splits dest!: merge_loop_same_setup)

lemma run_nonempty: "run es s = Some s' \<Longrightarrow> hashes s \<noteq> [] \<Longrightarrow> hashes s' \<noteq> []"
  by (induction es arbitrary: s) (auto split: option.splits dest: deliver_nonempty)

lemma same_setup_trans: "same_setup a b \<Longrightarrow> same_setup b c \<Longrightarrow> same_setup a c"
  by (simp add: same_setup_def)

lemma run_same_setup: "run es s = Some s' \<Longrightarrow> same_setup s s'"
proof (induction es arbitrary: s)
  case Nil
  then show ?case by (simp add: same_setup_def)
next
  case (Cons e es)
  then show ?case
    by (auto split: option.splits dest!: deliver_same_setup intro: same_setup_trans)
qed

lemma construct_Some:
  "construct rate fh hs cps = Some s0 \<Longrightarrow>
   hs \<noteq> [] \<and> hashes s0 = hs \<and> first_height s0 = fh \<and> checkpoints s0 = cps \<and>
   target_height s0 = target fh hs cps \<and> start_size s0 = size_of hs \<and>
   minimum_rate s0 = rate \<and> current_second s0 = 0 \<and> \<not> stopped s0"
  by (auto simp: construct_def split: if_splits)

lemma merge_headers_True:
  "merge_headers message s = Some (True, s') \<Longrightarrow>
   hashes s \<noteq> [] \<and> s' = s\<lparr>hashes := hashes s @ map header_hash (elements message)\<rparr>"
  by (auto simp: merge_headers_def back_of_def split: if_splits dest: merge_loop_True)

text \<open>
  Claim C8. The hash list is never empty: the constructor requires a non-empty seed, a
  successful \<open>merge_headers\<close> only appends the hashes of the message (so the length does
  not decrease between rollbacks), \<open>rollback\<close> always leaves at least one element, and
  hence every state that a run of the protocol reaches has at least one hash.
\<close>

theorem hashes_never_empty:
  assumes "construct rate fh hs cps = Some s0" and "run es s0 = Some s"
  shows "hs \<noteq> [] \<and> 1 \<le> length (hashes s) \<and> 1 \<le> length (hashes (rollback s)) \<and>
         (\<forall>message s'. merge_headers message s = Some (True, s') \<longrightarrow>
            hashes s' = hashes s @ map header_hash (elements message))"
proof -
  from assms(1) have seed: "hs \<noteq> []" "hashes s0 = hs" by (simp_all add: construct_Some)
  with assms(2) have "hashes s \<noteq> []" by (auto dest: run_nonempty)
  then have "1 \<le> length (hashes s)" by (cases "hashes s") simp_all
  moreover have "1 \<le> length (hashes (rollback s))"
    using rollback_nonempty [of s] by (cases "hashes (rollback s)") simp_all
  moreover have "\<forall>message s'. merge_headers message s = Some (True, s') \<longrightarrow>
      hashes s' = hashes s @ map header_hash (elements message)"
    by (auto dest: merge_headers_True)
  ultimately show ?thesis using seed by simp
qed

lemma size_of_less_full: "length xs < 2000 \<Longrightarrow> \<not> full_headers \<le> size_of xs"
  by (simp add: size_of_def full_headers_def word_le_nat_alt unat_of_nat)

text \<open>
  Claim C1. In every run of the protocol, when a \<open>headers\<close> message with fewer than the
  full batch of 2000 headers has been merged, the protocol completes with \<open>success\<close> if
  and only if the next height, \<open>first_height + |hashes|\<close>, exceeds the target height,
  and otherwise with \<open>operation_failed\<close>. The target height is the one fixed at
  construction from the initial hash list \<open>hs\<close>: \<open>first_height + |hs| - 1\<close> when there
  are no checkpoints, and else the maximum of that and the height of the last checkpoint.
  The heights are computed in \<open>size_t\<close>, as the code computes them.
\<close>

theorem short_batch_completion:
  assumes "construct rate fh hs cps = Some s0"
    and "run es s0 = Some s"
    and "\<not> stopped s"
    and "merge_headers message s = Some (True, s')"
    and "length (elements message) < 2000"
  shows "\<exists>c. handle_receive success message s = Some ([handler c], s'\<lparr>stopped := True\<rparr>) \<and>
           (c = success \<longleftrightarrow>
              (if cps = [] then fh + size_of hs - 1
               else max (height (last cps)) (fh + size_of hs - 1)) < fh + size_of (hashes s')) \<and>
           (c \<noteq> success \<longrightarrow> c = operation_failed)"
proof -
  from assms(1) have s0: "first_height s0 = fh" "target_height s0 = target fh hs cps"
    by (simp_all add: construct_Some)
  from assms(2) have "same_setup s0 s" by (rule run_same_setup)
  with s0 have s: "first_height s = fh" "target_height s = target fh hs cps"
    by (simp_all add: same_setup_def)
  from assms(4) have s': "s' = s\<lparr>hashes := hashes s @ map header_hash (elements message)\<rparr>"
    by (simp add: merge_headers_True)
  with s have "first_height s' = fh" "target_height s' = target fh hs cps" by simp_all
  then have nh: "next_height s' = fh + size_of (hashes s')"
    and th: "target_height s' = (if cps = [] then fh + size_of hs - 1
               else max (height (last cps)) (fh + size_of hs - 1))"
    by (simp_all add: next_height_def target_def)
  from assms(3,4,5) size_of_less_full [OF assms(5)]
  have "handle_receive success message s =
      Some (complete (if target_height s' < next_height s' then success else operation_failed) s')"
    by (simp add: handle_receive_def)
  then show ?thesis unfolding nh th by (simp add: complete_eq)
qed

lemma std_find_Some_in: "std_find hs h = Some i \<Longrightarrow> h \<in> set hs"
  using std_find_None_iff [of hs h] by auto

lemma rollback_scan_None_iff:
  "rollback_scan cs hs = None \<longleftrightarrow> (\<forall>c\<in>set cs. hash c \<notin> set hs)"
  by (induction cs) (auto simp: std_find_None_iff split: option.splits dest: std_find_Some_in)

lemma rollback_scan_Some_split:
  "rollback_scan cs hs = Some hs' \<Longrightarrow>
   \<exists>pre c post i. cs = pre @ c # post \<and> (\<forall>p\<in>set pre. hash p \<notin> set hs) \<and>
      std_find hs (hash c) = Some i \<and> hs' = take (Suc i) hs"
proof (induction cs)
  case Nil
  then show ?case by simp
next
  case (Cons a cs)
  show ?case
  proof (cases "std_find hs (hash a)")
    case None
    with Cons.prems have "rollback_scan cs hs = Some hs'" by simp
    from Cons.IH [OF this] obtain pre c post i where
      "cs = pre @ c # post" "\<forall>p\<in>set pre. hash p \<notin> set hs"
      "std_find hs (hash c) = Some i" "hs' = take (Suc i) hs" by blast
    with None have "a # cs = (a # pre) @ c # post \<and> (\<forall>p\<in>set (a # pre). hash p \<notin> set hs) \<and>
      std_find hs (hash c) = Some i \<and> hs' = take (Suc i) hs"
      by (simp add: std_find_None_iff)
    then show ?thesis by blast
  next
    case (Some i)
    with Cons.prems have "a # cs = [] @ a # cs \<and> (\<forall>p\<in>set []. hash p \<notin> set hs) \<and>
      std_find hs (hash a) = Some i \<and> hs' = take (Suc i) hs" by simp
    then show ?thesis by blast
  qed
qed

lemma rollback_hashes_absent:
  assumes "\<forall>c\<in>set cps. hash c \<notin> set hs"
  shows "rollback_hashes cps hs = resize 1 hs"
proof -
  from assms have "rollback_scan (rev cps) hs = None" by (simp add: rollback_scan_None_iff)
  then show ?thesis by (simp add: rollback_hashes_def)
qed

lemma rollback_hashes_present:
  assumes sorted: "sorted (map height cps)" and present: "\<exists>c\<in>set cps. hash c \<in> set hs"
  shows "\<exists>c\<in>set cps. \<exists>i<length hs. hs ! i = hash c \<and> hash c \<notin> set (take i hs) \<and>
           (\<forall>c'\<in>set cps. hash c' \<in> set hs \<longrightarrow> height c' \<le> height c) \<and>
           rollback_hashes cps hs = take (Suc i) hs"
proof -
  from present have ne: "cps \<noteq> []" by auto
  from present have "rollback_scan (rev cps) hs \<noteq> None"
    by (simp add: rollback_scan_None_iff)
  then obtain hs' where scan: "rollback_scan (rev cps) hs = Some hs'" by auto
  from rollback_scan_Some_split [OF this] obtain pre c post i where
    split: "rev cps = pre @ c # post" and absent: "\<forall>p\<in>set pre. hash p \<notin> set hs"
    and found: "std_find hs (hash c) = Some i" and hs': "hs' = take (Suc i) hs" by blast
  from split have cps: "cps = rev post @ c # rev pre" by (simp add: rev_swap)
  then have c_in: "c \<in> set cps" by simp
  have highest: "\<forall>c'\<in>set cps. hash c' \<in> set hs \<longrightarrow> height c' \<le> height c"
  proof (intro ballI impI)
    fix c' assume c': "c' \<in> set cps" and here: "hash c' \<in> set hs"
    with absent cps have "c' = c \<or> c' \<in> set post" by auto
    moreover from sorted cps have "\<forall>x\<in>set post. height x \<le> height c"
      by (auto simp: sorted_append)
    ultimately show "height c' \<le> height c" by auto
  qed
  from found have "i < length hs" "hs ! i = hash c" "hash c \<notin> set (take i hs)"
    by (simp_all add: std_find_Some_less std_find_nth)
  moreover from ne scan hs' have "rollback_hashes cps hs = take (Suc i) hs"
    by (simp add: rollback_hashes_def)
  ultimately show ?thesis using c_in highest by blast
qed

lemma header_fails_0:
  "header_fails s (b # bs) 0 \<longleftrightarrow>
     previous_block_hash b \<noteq> last (hashes s) \<or>
     \<not> validate (header_hash b) (next_height s) (checkpoints s)"
  by (simp add: header_fails_def next_height_def size_of_def add.commute)

lemma header_fails_Suc:
  "header_fails s (b # bs) (Suc k) \<longleftrightarrow>
   header_fails (s\<lparr>hashes := hashes s @ [header_hash b]\<rparr>) bs k"
  by (simp add: header_fails_def)

lemma merge_loop_first_failure:
  "previous = last (hashes s) \<Longrightarrow> k < length bs \<Longrightarrow>
   header_fails s bs k \<Longrightarrow>
   \<forall>j<k. \<not> header_fails s bs j \<Longrightarrow>
   merge_loop bs previous s =
     (False, rollback (s\<lparr>hashes := hashes s @ map header_hash (take k bs)\<rparr>))"
proof (induction bs arbitrary: previous s k)
  case Nil
  then show ?case by simp
next
  case (Cons b bs)
  show ?case
  proof (cases k)
    case 0
    with Cons.prems show ?thesis by (auto simp: header_fails_0 Let_def)
  next
    case (Suc k')
    let ?s = "s\<lparr>hashes := hashes s @ [header_hash b]\<rparr>"
    from Suc Cons.prems have ok: "\<not> header_fails s (b # bs) 0" by blast
    from Suc Cons.prems have "k' < length bs" by simp
    moreover from Suc Cons.prems have "header_fails ?s bs k'"
      by (simp add: header_fails_Suc)
    moreover have "\<forall>j<k'. \<not> header_fails ?s bs j"
    proof (intro allI impI)
      fix j assume "j < k'"
      with Suc have "Suc j < k" by simp
      with Cons.prems have "\<not> header_fails s (b # bs) (Suc j)" by blast
      then show "\<not> header_fails ?s bs j" by (simp add: header_fails_Suc)
    qed
    moreover have "header_hash b = last (hashes ?s)" by simp
    ultimately have "merge_loop bs (header_hash b) ?s =
      (False, rollback (?s\<lparr>hashes := hashes ?s @ map header_hash (take k' bs)\<rparr>))"
      by (rule Cons.IH [rotated 1])
    with ok Cons.prems(1) Suc show ?thesis by (simp add: header_fails_0 Let_def)
  qed
qed

lemma unat_ucast_rate: "unat (ucast (m :: uint32_t) :: size_t) = unat m"
proof -
  have "unat m < 2 ^ 32" using unsigned_less [of m] by simp
  then have "unat m < 2 ^ 64" by simp
  then show ?thesis by (simp add: unsigned_ucast_eq take_bit_nat_eq_self)
qed

lemma size_of_unat: "length xs < 2 ^ 64 \<Longrightarrow> unat (size_of xs) = length xs"
  by (simp add: size_of_def unat_of_nat)

lemma next_second: "unat (x :: size_t) < 2 ^ 64 - 1 \<Longrightarrow> unat (x + 1) = unat x + 1"
  by (simp add: unat_word_ariths)

lemma next_second_le: "unat ((x :: size_t) + 1) \<le> unat x + 1"
  by (simp add: unat_word_ariths mod_le_divisor)

section \<open>A message that does not merge\<close>

lemma first_failure:
  assumes "k < length bs" and "header_fails s bs k"
  shows "\<exists>j\<le>k. header_fails s bs j \<and> (\<forall>i<j. \<not> header_fails s bs i)"
proof -
  let ?j = "LEAST j. header_fails s bs j"
  from assms(2) have "header_fails s bs ?j" by (rule LeastI)
  moreover from assms(2) have "?j \<le> k" by (rule Least_le)
  moreover have "\<forall>i<?j. \<not> header_fails s bs i" using not_less_Least by blast
  ultimately show ?thesis by blast
qed

text \<open>
  Claim C2. Whenever a header of a received \<open>headers\<close> message fails the linkage check
  (its \<open>previous_block_hash\<close> is not the current last hash of the list) or the
  checkpoint validation at the height it would occupy (the first height plus the number
  of hashes in the list when its turn comes), the protocol executes \<open>rollback\<close> and
  completes with \<open>previous_block_invalid\<close>. The rollback happens at the first such
  header \<open>j\<close>, on the list \<open>hs\<close> that holds the hashes of the headers before it. It
  truncates \<open>hs\<close> to end with the first element that equals the hash of a checkpoint of
  the highest height among those whose hash is in \<open>hs\<close>, and to a single element if no
  checkpoint hash is in \<open>hs\<close>. The checkpoint list is sorted by height, as it is kept.
\<close>

theorem failed_merge_rolls_back:
  assumes "\<not> stopped s" and "hashes s \<noteq> []"
    and "sorted (map height (checkpoints s))"
    and "k < length (elements message)"
    and "header_fails s (elements message) k"
  shows "\<exists>j\<le>k. \<exists>hs hs'.
           header_fails s (elements message) j \<and>
           (\<forall>i<j. \<not> header_fails s (elements message) i) \<and>
           hs = hashes s @ map header_hash (take j (elements message)) \<and>
           handle_receive success message s =
             Some ([handler previous_block_invalid], s\<lparr>hashes := hs', stopped := True\<rparr>) \<and>
           hs' = hashes (rollback (s\<lparr>hashes := hs\<rparr>)) \<and>
           (if \<exists>c\<in>set (checkpoints s). hash c \<in> set hs
            then \<exists>c\<in>set (checkpoints s). \<exists>i<length hs.
                   hs ! i = hash c \<and> hash c \<notin> set (take i hs) \<and>
                   (\<forall>c'\<in>set (checkpoints s). hash c' \<in> set hs \<longrightarrow> height c' \<le> height c) \<and>
                   hs' = take (Suc i) hs
            else hs' = take 1 hs)"
proof -
  from first_failure [OF assms(4,5)] obtain j where j: "j \<le> k"
    and fails: "header_fails s (elements message) j"
    and first: "\<forall>i<j. \<not> header_fails s (elements message) i" by blast
  let ?hs = "hashes s @ map header_hash (take j (elements message))"
  let ?hs' = "rollback_hashes (checkpoints s) ?hs"
  from j assms(4) have "j < length (elements message)" by simp
  with fails first
  have "merge_loop (elements message) (last (hashes s)) s = (False, rollback (s\<lparr>hashes := ?hs\<rparr>))"
    by (intro merge_loop_first_failure) simp_all
  with assms(2) have "merge_headers message s = Some (False, rollback (s\<lparr>hashes := ?hs\<rparr>))"
    by (simp add: merge_headers_def back_of_def)
  with assms(1) have recv: "handle_receive success message s =
      Some ([handler previous_block_invalid], s\<lparr>hashes := ?hs', stopped := True\<rparr>)"
    by (simp add: handle_receive_def complete_eq rollback_def)
  have rb: "?hs' = hashes (rollback (s\<lparr>hashes := ?hs\<rparr>))" by (simp add: rollback_def)
  have policy: "if \<exists>c\<in>set (checkpoints s). hash c \<in> set ?hs
            then \<exists>c\<in>set (checkpoints s). \<exists>i<length ?hs.
                   ?hs ! i = hash c \<and> hash c \<notin> set (take i ?hs) \<and>
                   (\<forall>c'\<in>set (checkpoints s). hash c' \<in> set ?hs \<longrightarrow> height c' \<le> height c) \<and>
                   ?hs' = take (Suc i) ?hs
            else ?hs' = take 1 ?hs"
  proof (cases "\<exists>c\<in>set (checkpoints s). hash c \<in> set ?hs")
    case True
    from rollback_hashes_present [OF assms(3) True] True show ?thesis by simp
  next
    case False
    then have "\<forall>c\<in>set (checkpoints s). hash c \<notin> set ?hs" by blast
    from rollback_hashes_absent [OF this] assms(2) False show ?thesis
      by (cases "hashes s") (simp_all add: resize_def)
  qed
  from j fails first recv rb policy show ?thesis by blast
qed

section \<open>The full batch\<close>

lemma merge_headers_stopped:
  "merge_headers message s = Some (b, s') \<Longrightarrow> stopped s' = stopped s"
  by (auto simp: merge_headers_def split: option.splits dest: merge_loop_stopped)

lemma full_headers_le: "length xs < 2 ^ 64 \<Longrightarrow> full_headers \<le> size_of xs \<longleftrightarrow> 2000 \<le> length xs"
  by (simp add: word_le_nat_alt size_of_unat full_headers_def)

text \<open>
  Claim C3, amended. After a \<open>headers\<close> message has been merged, the protocol issues
  another \<open>get_headers\<close> request, with the new last hash as its locator and without
  completing, if and only if the message contained at least 2000 headers; it completes
  the attempt if and only if the message contained fewer than 2000. (The number of
  headers in a message is a \<open>size_t\<close>.)
\<close>

theorem full_batch_continuation:
  assumes "\<not> stopped s" and "merge_headers message s = Some (True, s')"
    and "length (elements message) < 2 ^ 64"
  shows "(handle_receive success message s =
            Some ([get_headers [last (hashes s')] null_hash], s')) =
           (2000 \<le> length (elements message)) \<and>
         (\<exists>c. handle_receive success message s =
            Some ([handler c], s'\<lparr>stopped := True\<rparr>)) =
           (length (elements message) < 2000)"
proof -
  from assms(2) have s': "hashes s \<noteq> []"
    "s' = s\<lparr>hashes := hashes s @ map header_hash (elements message)\<rparr>"
    by (simp_all add: merge_headers_True)
  with assms(1) have send: "send_get_headers s' =
      Some ([get_headers [last (hashes s')] null_hash], s')"
    by (simp add: send_get_headers_def back_of_def)
  show ?thesis
  proof (cases "2000 \<le> length (elements message)")
    case True
    with assms(3) have "full_headers \<le> size_of (elements message)"
      by (simp add: full_headers_le)
    with assms(1,2) send have "handle_receive success message s =
        Some ([get_headers [last (hashes s')] null_hash], s')"
      by (simp add: handle_receive_def)
    with True show ?thesis by simp
  next
    case False
    with assms(3) have "\<not> full_headers \<le> size_of (elements message)"
      by (simp add: full_headers_le)
    with assms(1,2) have "handle_receive success message s =
        Some (complete (if target_height s' < next_height s'
                        then success else operation_failed) s')"
      by (simp add: handle_receive_def)
    with False show ?thesis by (simp add: complete_eq)
  qed
qed

lemma validate_Nil: "validate h n []"
  by (simp add: validate_def)

lemma linked_headers_merge:
  "checkpoints s = [] \<Longrightarrow>
   merge_loop (linked_headers n h) h s =
     (True, s\<lparr>hashes := hashes s @ map header_hash (linked_headers n h)\<rparr>)"
  by (induction n arbitrary: h s) (simp_all add: validate_Nil Let_def)

lemma length_linked_headers: "length (linked_headers n h) = n"
  by (induction n arbitrary: h) simp_all

lemma linked_headers_Nil_iff: "linked_headers n h = [] \<longleftrightarrow> n = 0"
  by (cases n) simp_all

lemma last_linked_headers:
  "0 < n \<Longrightarrow> last (map header_hash (linked_headers n h)) = h + of_nat n"
  by (induction n arbitrary: h) (simp_all add: linked_headers_Nil_iff add.assoc)

text \<open>
  A message of 2001 linked headers is merged and answered by another \<open>get_headers\<close>
  request, although it does not contain exactly 2000 headers.
\<close>

theorem exactly_2000_counterexample:
  "length (elements \<lparr>elements = linked_headers 2001 10\<rparr>) = 2001 \<and>
   map_option fst (handle_receive success \<lparr>elements = linked_headers 2001 10\<rparr> seed_state) =
     Some [get_headers [2011] null_hash]"
proof -
  let ?m = "\<lparr>elements = linked_headers 2001 10\<rparr>"
  have "merge_headers ?m seed_state =
    Some (True, seed_state\<lparr>hashes := hashes seed_state @ map header_hash (linked_headers 2001 10)\<rparr>)"
    by (simp add: merge_headers_def back_of_def linked_headers_merge seed_state_def)
  moreover have "full_headers \<le> size_of (elements ?m)"
    by (simp add: full_headers_def size_of_def length_linked_headers)
  moreover have "\<not> stopped seed_state" by (simp add: seed_state_def)
  ultimately have "handle_receive success ?m seed_state =
     send_get_headers (seed_state\<lparr>hashes := hashes seed_state @ map header_hash (linked_headers 2001 10)\<rparr>)"
    by (simp add: handle_receive_def)
  moreover have "last (map header_hash (linked_headers 2001 10)) = (2011 :: hash_digest)"
    by (simp add: last_linked_headers)
  moreover have "linked_headers 2001 10 \<noteq> []"
    by (simp add: linked_headers_Nil_iff)
  ultimately show ?thesis
    by (simp add: send_get_headers_def back_of_def seed_state_def length_linked_headers)
qed

section \<open>The scenarios of the header sync\<close>

lemma seed_constructed: "construct 10 0 [10] [] = Some seed_state"
  by (simp add: construct_def target_def size_of_def seed_state_def)

lemma seed_started: "run [started 3] seed_state = Some seed_state"
  by (simp add: start_def send_get_headers_def back_of_def seed_state_def)

lemma seed_merged:
  "merge_headers \<lparr>elements = linked_headers 3 10\<rparr> seed_state =
     Some (True, seed_state\<lparr>hashes := [10, 11, 12, 13]\<rparr>)"
  by (simp add: merge_headers_def back_of_def validate_Nil seed_state_def
      numeral_3_eq_3)

theorem short_batch_completion_witness:
  "construct 10 0 [10] [] = Some seed_state \<and>
   run [started 3] seed_state = Some seed_state \<and>
   \<not> stopped seed_state \<and>
   merge_headers \<lparr>elements = linked_headers 3 10\<rparr> seed_state =
     Some (True, seed_state\<lparr>hashes := [10, 11, 12, 13]\<rparr>) \<and>
   length (elements \<lparr>elements = linked_headers 3 10\<rparr>) < 2000 \<and>
   handle_receive success \<lparr>elements = linked_headers 3 10\<rparr> seed_state =
     Some ([handler success], seed_state\<lparr>hashes := [10, 11, 12, 13], stopped := True\<rparr>)"
proof -
  have n: "\<not> stopped seed_state" by (simp add: seed_state_def)
  have l: "length (elements \<lparr>elements = linked_headers 3 10\<rparr>) < 2000"
    by (simp add: length_linked_headers)
  from short_batch_completion [OF seed_constructed seed_started n seed_merged l]
  have "handle_receive success \<lparr>elements = linked_headers 3 10\<rparr> seed_state =
     Some ([handler success], seed_state\<lparr>hashes := [10, 11, 12, 13], stopped := True\<rparr>)"
    by (auto simp: size_of_def seed_state_def)
  with seed_constructed seed_started n seed_merged l show ?thesis by simp
qed

theorem hashes_never_empty_witness:
  "construct 10 0 [10] [] = Some seed_state \<and>
   run [started 3, received success \<lparr>elements = linked_headers 3 10\<rparr>] seed_state =
     Some (seed_state\<lparr>hashes := [10, 11, 12, 13], stopped := True\<rparr>) \<and>
   1 \<le> length (hashes (seed_state\<lparr>hashes := [10, 11, 12, 13], stopped := True\<rparr>))"
proof -
  have r: "run [started 3, received success \<lparr>elements = linked_headers 3 10\<rparr>] seed_state =
     Some (seed_state\<lparr>hashes := [10, 11, 12, 13], stopped := True\<rparr>)"
    by (simp add: start_def send_get_headers_def back_of_def handle_receive_def
        merge_headers_def linked_headers_merge full_headers_def size_of_def
        length_linked_headers complete_eq next_height_def seed_state_def validate_Nil
        numeral_3_eq_3)
  from hashes_never_empty [OF seed_constructed r] seed_constructed r show ?thesis by simp
qed

text \<open>
  Two scenarios. In the first the first header does not link to the last hash. In the
  second both headers link, and the second fails the validation against the checkpoint
  of the height 4 that it would occupy; the hash of the first has been appended by then,
  and the rollback cuts the list after the checkpoint of the height 2.
\<close>

theorem failed_merge_rolls_back_witness:
  "\<not> stopped checkpoint_state \<and> hashes checkpoint_state \<noteq> [] \<and>
   sorted (map height (checkpoints checkpoint_state)) \<and>
   0 < length (elements unlinked_message) \<and>
   header_fails checkpoint_state (elements unlinked_message) 0 \<and>
   handle_receive success unlinked_message checkpoint_state =
     Some ([handler previous_block_invalid],
           checkpoint_state\<lparr>hashes := [10, 11, 12], stopped := True\<rparr>) \<and>
   \<not> stopped ahead_state \<and> hashes ahead_state \<noteq> [] \<and>
   sorted (map height (checkpoints ahead_state)) \<and>
   1 < length (elements mismatching_message) \<and>
   \<not> header_fails ahead_state (elements mismatching_message) 0 \<and>
   header_fails ahead_state (elements mismatching_message) 1 \<and>
   previous_block_hash (elements mismatching_message ! 1) =
     last (hashes ahead_state @ map header_hash (take 1 (elements mismatching_message))) \<and>
   \<not> validate (header_hash (elements mismatching_message ! 1)) 4 (checkpoints ahead_state) \<and>
   validate (header_hash (elements mismatching_message ! 1)) 3 (checkpoints ahead_state) \<and>
   handle_receive success mismatching_message ahead_state =
     Some ([handler previous_block_invalid],
           ahead_state\<lparr>hashes := [10, 11, 12], stopped := True\<rparr>)"
proof -
  have a: "\<not> stopped checkpoint_state" by (simp add: checkpoint_state_def)
  have b: "hashes checkpoint_state \<noteq> []" by (simp add: checkpoint_state_def)
  have c: "sorted (map height (checkpoints checkpoint_state))"
    by (simp add: checkpoint_state_def)
  have d: "0 < length (elements unlinked_message)" by (simp add: unlinked_message_def)
  have e: "header_fails checkpoint_state (elements unlinked_message) 0"
    by (simp add: header_fails_def checkpoint_state_def unlinked_message_def)
  have first: "handle_receive success unlinked_message checkpoint_state =
     Some ([handler previous_block_invalid],
           checkpoint_state\<lparr>hashes := [10, 11, 12], stopped := True\<rparr>)"
    using failed_merge_rolls_back [OF a b c d e]
    by (simp add: rollback_def rollback_hashes_def checkpoint_state_def unlinked_message_def)
  have a': "\<not> stopped ahead_state" by (simp add: ahead_state_def)
  have b': "hashes ahead_state \<noteq> []" by (simp add: ahead_state_def)
  have c': "sorted (map height (checkpoints ahead_state))"
    by (simp add: ahead_state_def)
  have d': "1 < length (elements mismatching_message)"
    by (simp add: mismatching_message_def)
  have ok: "\<not> header_fails ahead_state (elements mismatching_message) 0"
    by (simp add: header_fails_def validate_def ahead_state_def mismatching_message_def)
  have e': "header_fails ahead_state (elements mismatching_message) 1"
    by (simp add: header_fails_def validate_def ahead_state_def mismatching_message_def)
  have link: "previous_block_hash (elements mismatching_message ! 1) =
     last (hashes ahead_state @ map header_hash (take 1 (elements mismatching_message)))"
    by (simp add: ahead_state_def mismatching_message_def)
  have v4: "\<not> validate (header_hash (elements mismatching_message ! 1)) 4
      (checkpoints ahead_state)"
    by (simp add: validate_def ahead_state_def mismatching_message_def)
  have v3: "validate (header_hash (elements mismatching_message ! 1)) 3
      (checkpoints ahead_state)"
    by (simp add: validate_def ahead_state_def mismatching_message_def)
  have second: "handle_receive success mismatching_message ahead_state =
     Some ([handler previous_block_invalid],
           ahead_state\<lparr>hashes := [10, 11, 12], stopped := True\<rparr>)"
    using failed_merge_rolls_back [OF a' b' c' d' e'] ok
    by (auto simp: rollback_def rollback_hashes_def ahead_state_def mismatching_message_def
        less_Suc_eq_0_disj)
  from a b c d e first a' b' c' d' ok e' link v4 v3 second show ?thesis by simp
qed

theorem full_batch_continuation_witness:
  "\<not> stopped seed_state \<and>
   merge_headers \<lparr>elements = linked_headers 2000 10\<rparr> seed_state =
     Some (True, seed_state\<lparr>hashes := 10 # map header_hash (linked_headers 2000 10)\<rparr>) \<and>
   length (elements \<lparr>elements = linked_headers 2000 10\<rparr>) < 2 ^ 64 \<and>
   handle_receive success \<lparr>elements = linked_headers 2000 10\<rparr> seed_state =
     Some ([get_headers [2010] null_hash],
           seed_state\<lparr>hashes := 10 # map header_hash (linked_headers 2000 10)\<rparr>)"
proof -
  let ?m = "\<lparr>elements = linked_headers 2000 10\<rparr>"
  let ?s' = "seed_state\<lparr>hashes := 10 # map header_hash (linked_headers 2000 10)\<rparr>"
  have n: "\<not> stopped seed_state" by (simp add: seed_state_def)
  have m: "merge_headers ?m seed_state = Some (True, ?s')"
    by (simp add: merge_headers_def back_of_def linked_headers_merge seed_state_def)
  have l: "length (elements ?m) < 2 ^ 64" by (simp add: length_linked_headers)
  have "last (map header_hash (linked_headers 2000 10)) = (2010 :: hash_digest)"
    by (simp add: last_linked_headers)
  moreover have "linked_headers 2000 10 \<noteq> []" by (simp add: linked_headers_Nil_iff)
  ultimately have "last (hashes ?s') = 2010" by simp
  with full_batch_continuation [OF n m l]
  have "handle_receive success ?m seed_state = Some ([get_headers [2010] null_hash], ?s')"
    by (simp add: length_linked_headers)
  with n m l show ?thesis by simp
qed

section \<open>The rate of the header sync\<close>

lemma deliver_stopped: "deliver e s = Some (acts, s') \<Longrightarrow> stopped s \<Longrightarrow> stopped s'"
  by (cases e)
     (auto simp: start_def send_get_headers_def handle_send_def complete_eq
        handle_receive_def handle_event_def Let_def
        split: if_splits option.splits prod.splits)

lemma run_stopped: "run es s = Some s' \<Longrightarrow> stopped s \<Longrightarrow> stopped s'"
  by (induction es arbitrary: s) (auto split: option.splits dest: deliver_stopped)

lemma deliver_grows:
  "deliver e s = Some (acts, s') \<Longrightarrow> \<not> stopped s' \<Longrightarrow> \<exists>more. hashes s' = hashes s @ more"
  by (cases e)
     (auto simp: start_def send_get_headers_def handle_send_def complete_eq
        handle_receive_def handle_event_def Let_def
        split: if_splits option.splits prod.splits bool.splits dest!: merge_headers_True)

lemma run_grows:
  "run es s = Some s' \<Longrightarrow> \<not> stopped s' \<Longrightarrow> \<exists>more. hashes s' = hashes s @ more"
proof (induction es arbitrary: s)
  case Nil
  then show ?case by simp
next
  case (Cons e es)
  from Cons.prems(1) obtain acts s1 where d: "deliver e s = Some (acts, s1)"
    and r: "run es s1 = Some s'" by (auto split: option.splits)
  from r Cons.prems(2) have "\<not> stopped s1" by (auto dest: run_stopped)
  with d obtain m1 where "hashes s1 = hashes s @ m1" by (auto dest: deliver_grows)
  moreover from Cons.IH [OF r Cons.prems(2)] obtain m2 where "hashes s' = hashes s1 @ m2" ..
  ultimately show ?case by simp
qed

lemma deliver_second:
  "deliver e s = Some (acts, s') \<Longrightarrow> unat (current_second s') \<le> unat (current_second s) + 1"
  using next_second_le [of "current_second s"]
  by (cases e)
     (auto simp: start_def send_get_headers_def handle_send_def complete_eq
        handle_receive_def handle_event_def Let_def merge_headers_def
        split: if_splits option.splits prod.splits dest!: merge_loop_True merge_loop_False)

lemma run_seconds:
  "run es s = Some s' \<Longrightarrow> unat (current_second s') \<le> unat (current_second s) + length es"
proof (induction es arbitrary: s)
  case Nil
  then show ?case by simp
next
  case (Cons e es)
  from Cons.prems obtain acts s1 where d: "deliver e s = Some (acts, s1)"
    and r: "run es s1 = Some s'" by (auto split: option.splits)
  from deliver_second [OF d] Cons.IH [OF r] show ?case by simp
qed

lemma next_second_nonzero: "unat (x :: size_t) < 2 ^ 64 - 1 \<Longrightarrow> x + 1 \<noteq> 0"
  using next_second [of x] by (auto simp: unat_eq_zero)

lemma run_append:
  "run (es @ es') s = (case run es s of None \<Rightarrow> None | Some s' \<Rightarrow> run es' s')"
  by (induction es arbitrary: s) (auto split: option.splits)

lemma merge_headers_defined: "hashes s \<noteq> [] \<Longrightarrow> merge_headers message s \<noteq> None"
  by (simp add: merge_headers_def back_of_def)

lemma merge_headers_nonempty:
  "merge_headers message s = Some (b, s') \<Longrightarrow> hashes s' \<noteq> []"
  by (auto simp: merge_headers_def back_of_def split: if_splits dest: merge_loop_nonempty)

lemma deliver_defined:
  assumes "hashes s \<noteq> []" and "unat (current_second s) < 2 ^ 64 - 1"
  shows "deliver e s \<noteq> None"
proof (cases e)
  case (started h)
  with assms(1) show ?thesis
    by (simp add: start_def send_get_headers_def back_of_def)
next
  case (sent ec)
  then show ?thesis by simp
next
  case (received ec message)
  from assms(1) obtain b s' where m: "merge_headers message s = Some (b, s')"
    using merge_headers_defined [of s message] by auto
  from merge_headers_nonempty [OF m] have "send_get_headers s' \<noteq> None"
    by (simp add: send_get_headers_def back_of_def)
  with received m show ?thesis by (simp add: handle_receive_def)
next
  case (timer ec)
  from assms(2) have "current_second s + 1 \<noteq> 0" by (rule next_second_nonzero)
  with timer show ?thesis by (simp add: handle_event_def current_rate_def Let_def)
qed

lemma run_defined:
  "hashes s \<noteq> [] \<Longrightarrow> unat (current_second s) + length es < 2 ^ 64 \<Longrightarrow> run es s \<noteq> None"
proof (induction es arbitrary: s)
  case Nil
  then show ?case by simp
next
  case (Cons e es)
  from Cons.prems have "unat (current_second s) < 2 ^ 64 - 1" by simp
  with Cons.prems(1) obtain acts s1 where d: "deliver e s = Some (acts, s1)"
    using deliver_defined [of s e] by auto
  from d Cons.prems(1) have "hashes s1 \<noteq> []" by (rule deliver_nonempty)
  moreover from deliver_second [OF d] Cons.prems(2)
  have "unat (current_second s1) + length es < 2 ^ 64" by simp
  ultimately have "run es s1 \<noteq> None" by (rule Cons.IH)
  with d show ?case by simp
qed

text \<open>
  Claim C10. \<open>current_rate\<close> never divides by zero: \<open>handle_event\<close>, its only caller,
  increments \<open>current_second\<close> before the call, so that the divisor is at least 1 at every
  call and the division is defined. \<open>current_second\<close> counts in \<open>size_t\<close>: the statement
  is about every run of fewer than \<open>2 ^ 64 - 1\<close> events after the construction, before
  which the counter cannot wrap around. Such a run meets no undefined behaviour, and
  neither does a further call of \<open>handle_event\<close>.
\<close>

theorem current_rate_defined:
  assumes "construct rate fh hs cps = Some s0" and "length es < 2 ^ 64 - 1"
  shows "\<exists>s. run es s0 = Some s \<and> 1 \<le> current_second s + 1 \<and>
           current_rate (s\<lparr>current_second := current_second s + 1\<rparr>) \<noteq> None \<and>
           handle_event ec s \<noteq> None \<and> run (es @ [timer ec]) s0 \<noteq> None"
proof -
  from assms(1) have s0: "current_second s0 = 0" "hashes s0 \<noteq> []"
    by (simp_all add: construct_Some)
  with assms(2) obtain s where s: "run es s0 = Some s"
    using run_defined [of s0 es] by auto
  with run_seconds [OF s] s0 assms(2) have small: "unat (current_second s) < 2 ^ 64 - 1"
    by simp
  then have "unat (current_second s + 1) = unat (current_second s) + 1" by (rule next_second)
  then have one: "1 \<le> current_second s + 1" by (simp add: word_le_nat_alt)
  from small have nz: "current_second s + 1 \<noteq> 0" by (rule next_second_nonzero)
  then have rate: "current_rate (s\<lparr>current_second := current_second s + 1\<rparr>) \<noteq> None"
    by (simp add: current_rate_def)
  from nz have ev: "handle_event ec s \<noteq> None"
    by (simp add: handle_event_def current_rate_def Let_def)
  with s have "run (es @ [timer ec]) s0 \<noteq> None"
    by (auto simp: run_append)
  with s one rate ev show ?thesis by blast
qed

text \<open>
  Claim C5. On a tick of the one-second timer (the timer's \<open>channel_timeout\<close>, or no
  error), \<open>current_second\<close> is incremented and the rate \<open>r\<close> is the number of hashes
  added since construction, \<open>|hashes| - |hs|\<close>, divided by the new \<open>current_second\<close>.
  The protocol completes with \<open>channel_timeout\<close> if and only if \<open>r\<close> is below the
  minimum rate, and resets the timer otherwise. Consequently it completes with
  \<open>channel_timeout\<close> on the tick that ends second \<open>T\<close> exactly when fewer than
  \<open>minimum_rate * T\<close> hashes have been added. The sizes are those of a run in which
  neither the counter nor the size of the list has wrapped around.
\<close>

theorem rate_gating:
  assumes "construct rate fh hs cps = Some s0" and "run es s0 = Some s"
    and "\<not> stopped s"
    and "length es < 2 ^ 64 - 1" and "length (hashes s) < 2 ^ 64"
    and "ec = channel_timeout \<or> ec = success"
  shows "\<exists>r. current_rate (s\<lparr>current_second := current_second s + 1\<rparr>) = Some r \<and>
           unat r = (length (hashes s) - length hs) div (unat (current_second s) + 1) \<and>
           (handle_event ec s =
              Some ([handler channel_timeout],
                    s\<lparr>current_second := current_second s + 1, stopped := True\<rparr>)
            \<longleftrightarrow> unat r < unat rate) \<and>
           (handle_event ec s =
              Some ([reset_timer], s\<lparr>current_second := current_second s + 1\<rparr>)
            \<longleftrightarrow> \<not> unat r < unat rate) \<and>
           (unat r < unat rate
            \<longleftrightarrow> length (hashes s) - length hs < unat rate * (unat (current_second s) + 1))"
proof -
  let ?T = "unat (current_second s) + 1"
  let ?added = "length (hashes s) - length hs"
  let ?s' = "s\<lparr>current_second := current_second s + 1\<rparr>"
  from assms(1) have s0: "current_second s0 = 0" "hashes s0 = hs"
    "start_size s0 = size_of hs" "minimum_rate s0 = rate"
    by (simp_all add: construct_Some)
  from run_same_setup [OF assms(2)] s0
  have cfg: "start_size s = size_of hs" "minimum_rate s = rate"
    by (simp_all add: same_setup_def)
  from run_grows [OF assms(2,3)] s0 obtain more where more: "hashes s = hs @ more" by auto
  with assms(5) have len: "length hs \<le> length (hashes s)" "length hs < 2 ^ 64" by simp_all
  from run_seconds [OF assms(2)] s0 assms(4)
  have small: "unat (current_second s) < 2 ^ 64 - 1" by simp
  then have T: "unat (current_second s + 1) = ?T" by (rule next_second)
  from small have nz: "current_second s + 1 \<noteq> 0" by (rule next_second_nonzero)
  let ?r = "(size_of (hashes s) - start_size s) div (current_second s + 1)"
  from nz have rate: "current_rate ?s' = Some ?r" by (simp add: current_rate_def)
  from len assms(5) have "size_of hs \<le> size_of (hashes s)"
    by (simp add: word_le_nat_alt size_of_unat)
  then have "unat (size_of (hashes s) - size_of hs) = ?added"
    using len assms(5) by (simp add: unat_sub size_of_unat)
  with T cfg have r: "unat ?r = ?added div ?T" by (simp add: unat_div)
  have less: "?r < ucast (minimum_rate ?s') \<longleftrightarrow> unat ?r < unat rate"
    using cfg by (simp add: word_less_nat_alt unat_ucast_rate)
  from assms(6) rate have ev: "handle_event ec s =
      (if ?r < ucast (minimum_rate ?s') then Some (complete channel_timeout ?s')
       else Some ([reset_timer], ?s'))"
    by (auto simp: handle_event_def Let_def)
  have gate: "unat ?r < unat rate \<longleftrightarrow> ?added < unat rate * ?T"
    unfolding r by (simp add: div_less_iff_less_mult)
  from rate r ev less gate show ?thesis
    by (auto simp: complete_eq)
qed

section \<open>The scenario of the rate\<close>

lemma rated_constructed: "construct 1000 0 [10] [] = Some rated_state"
  by (simp add: construct_def target_def size_of_def rated_state_def)

lemma rated_received:
  "handle_receive success \<lparr>elements = linked_headers 2000 10\<rparr> rated_state =
     Some ([get_headers [2010] null_hash],
           rated_state\<lparr>hashes := 10 # map header_hash (linked_headers 2000 10)\<rparr>)"
proof -
  let ?m = "\<lparr>elements = linked_headers 2000 10\<rparr>"
  let ?s' = "rated_state\<lparr>hashes := 10 # map header_hash (linked_headers 2000 10)\<rparr>"
  have n: "\<not> stopped rated_state" by (simp add: rated_state_def)
  have m: "merge_headers ?m rated_state = Some (True, ?s')"
    by (simp add: merge_headers_def back_of_def linked_headers_merge rated_state_def)
  have l: "full_headers \<le> size_of (elements ?m)"
    by (simp add: full_headers_def size_of_def length_linked_headers)
  have "last (map header_hash (linked_headers 2000 10)) = (2010 :: hash_digest)"
    by (simp add: last_linked_headers)
  moreover have "linked_headers 2000 10 \<noteq> []" by (simp add: linked_headers_Nil_iff)
  ultimately have "send_get_headers ?s' = Some ([get_headers [2010] null_hash], ?s')"
    by (simp add: send_get_headers_def back_of_def rated_state_def)
  with n m l show ?thesis by (simp add: handle_receive_def)
qed

lemma rated_tick:
  "k = 0 \<or> k = 1 \<Longrightarrow>
   handle_event channel_timeout
     (rated_state\<lparr>hashes := 10 # map header_hash (linked_headers 2000 10),
                  current_second := k\<rparr>) =
     Some ([reset_timer],
           rated_state\<lparr>hashes := 10 # map header_hash (linked_headers 2000 10),
                        current_second := k + 1\<rparr>)"
  by (auto simp: handle_event_def current_rate_def size_of_def length_linked_headers
      rated_state_def Let_def)

lemma rated_run:
  "run [started 3000, received success \<lparr>elements = linked_headers 2000 10\<rparr>,
        timer channel_timeout, timer channel_timeout] rated_state =
     Some (rated_state\<lparr>hashes := 10 # map header_hash (linked_headers 2000 10),
                        current_second := 2\<rparr>)"
proof -
  have "start 3000 rated_state = Some ([start_timer, get_headers [10] null_hash], rated_state)"
    by (simp add: start_def send_get_headers_def back_of_def rated_state_def)
  moreover have "rated_state\<lparr>hashes := 10 # map header_hash (linked_headers 2000 10)\<rparr> =
    rated_state\<lparr>hashes := 10 # map header_hash (linked_headers 2000 10), current_second := 0\<rparr>"
    by (simp add: rated_state_def)
  ultimately show ?thesis
    using rated_tick [of 0] rated_tick [of 1] by (simp add: rated_received)
qed

theorem rate_gating_witness:
  "construct 1000 0 [10] [] = Some rated_state \<and>
   run [started 3000, received success \<lparr>elements = linked_headers 2000 10\<rparr>,
        timer channel_timeout, timer channel_timeout] rated_state =
     Some (rated_state\<lparr>hashes := 10 # map header_hash (linked_headers 2000 10),
                        current_second := 2\<rparr>) \<and>
   handle_event channel_timeout
     (rated_state\<lparr>hashes := 10 # map header_hash (linked_headers 2000 10),
                  current_second := 2\<rparr>) =
     Some ([handler channel_timeout],
           rated_state\<lparr>hashes := 10 # map header_hash (linked_headers 2000 10),
                        current_second := 3, stopped := True\<rparr>)"
proof -
  let ?s = "rated_state\<lparr>hashes := 10 # map header_hash (linked_headers 2000 10),
                        current_second := 2\<rparr>"
  have n: "\<not> stopped ?s" by (simp add: rated_state_def)
  have e: "length [started 3000, received success \<lparr>elements = linked_headers 2000 10\<rparr>,
        timer channel_timeout, timer channel_timeout] < 2 ^ 64 - 1" by simp
  have h: "length (hashes ?s) < 2 ^ 64" by (simp add: length_linked_headers)
  have t: "channel_timeout = channel_timeout \<or> channel_timeout = success" by simp
  from rate_gating [OF rated_constructed rated_run n e h t]
  have "handle_event channel_timeout ?s =
     Some ([handler channel_timeout], ?s\<lparr>current_second := 3, stopped := True\<rparr>)"
    by (auto simp: length_linked_headers rated_state_def)
  with rated_constructed rated_run show ?thesis by simp
qed

theorem current_rate_defined_witness:
  "construct 1000 0 [10] [] = Some rated_state \<and>
   run [started 3000, received success \<lparr>elements = linked_headers 2000 10\<rparr>,
        timer channel_timeout, timer channel_timeout] rated_state =
     Some (rated_state\<lparr>hashes := 10 # map header_hash (linked_headers 2000 10),
                        current_second := 2\<rparr>) \<and>
   current_rate (rated_state\<lparr>hashes := 10 # map header_hash (linked_headers 2000 10),
                        current_second := 3\<rparr>) = Some 666"
proof -
  have e: "length [started 3000, received success \<lparr>elements = linked_headers 2000 10\<rparr>,
        timer channel_timeout, timer channel_timeout] < 2 ^ 64 - 1" by simp
  from current_rate_defined [OF rated_constructed e, of channel_timeout]
  have "current_rate (rated_state\<lparr>hashes := 10 # map header_hash (linked_headers 2000 10),
                        current_second := 3\<rparr>) = Some 666"
    by (simp add: current_rate_def size_of_def length_linked_headers rated_state_def)
  with rated_constructed rated_run show ?thesis by simp
qed

section \<open>The quorum of the block sync session\<close>

lemma new_connection_ops:
  "new_connection s = (if session_stopped s then ([], s) else ([fetch_address], s))"
  by (simp add: new_connection_def)

lemma unat_ucast_quorum: "unat (ucast (q :: uint32_t) :: size_t) = unat q"
  by (rule unat_ucast_rate)

lemma quorum_small: "unat (q :: uint32_t) < 2 ^ 64 - 1"
proof -
  have "unat q < 2 ^ 32" using unsigned_less [of q] by simp
  then show ?thesis by simp
qed

lemma handle_complete_error:
  "ec \<noteq> success \<Longrightarrow> handle_complete ec s = new_connection s"
  by (simp add: handle_complete_def)

lemma handle_complete_success:
  assumes "unat (votes s) < unat (quorum s)"
  shows "handle_complete success s =
           (if unat (votes s) + 1 < unat (quorum s) then new_connection (s\<lparr>votes := votes s + 1\<rparr>)
            else ([session_handler success], s\<lparr>votes := votes s + 1\<rparr>)) \<and>
         unat (votes s + 1) = unat (votes s) + 1"
proof -
  from assms quorum_small [of "quorum s"] have "unat (votes s) < 2 ^ 64 - 1" by simp
  then have "unat (votes s + 1) = unat (votes s) + 1" by (rule next_second)
  then show ?thesis
    by (simp add: handle_complete_def word_less_nat_alt unat_ucast_quorum)
qed

lemma completions_count:
  "unat (votes s) < unat (quorum s) \<Longrightarrow>
   fst (completions ecs s) = (unat (quorum s) \<le> unat (votes s) + count_list ecs success) \<and>
   unat (votes (snd (completions ecs s))) =
     min (unat (votes s) + count_list ecs success) (unat (quorum s)) \<and>
   quorum (snd (completions ecs s)) = quorum s"
proof (induction ecs arbitrary: s)
  case Nil
  then show ?case by simp
next
  case (Cons ec ecs)
  show ?case
  proof (cases "ec = success")
    case False
    then have "completions (ec # ecs) s = completions ecs s"
      by (simp add: handle_complete_error new_connection_ops)
    with False Cons.IH [OF Cons.prems] show ?thesis by simp
  next
    case True
    note hc = handle_complete_success [OF Cons.prems]
    show ?thesis
    proof (cases "unat (votes s) + 1 < unat (quorum s)")
      case below: True
      let ?s = "s\<lparr>votes := votes s + 1\<rparr>"
      from True hc below have "completions (ec # ecs) s = completions ecs ?s"
        by (simp add: new_connection_ops)
      moreover from hc below have "unat (votes ?s) < unat (quorum ?s)" by simp
      ultimately show ?thesis using Cons.IH [of ?s] True hc by simp
    next
      case False
      with True hc have "completions (ec # ecs) s = (True, s\<lparr>votes := votes s + 1\<rparr>)"
        by simp
      with False True hc Cons.prems show ?thesis by simp
    qed
  qed
qed

text \<open>
  Claim C4. A session that starts with no votes and a quorum of at least one completes
  with \<open>success\<close> exactly when the number of completions of the block sync protocol
  with the code \<open>success\<close> reaches the quorum; \<open>votes\<close> is that number until then. A
  completion with an error code leaves \<open>votes\<close> as it is and calls \<open>new_connection\<close>,
  which dials the next peer unless the session is stopped.
\<close>

theorem quorum_termination:
  assumes "votes s = 0" and "1 \<le> quorum s"
  shows "fst (completions ecs s) = (unat (quorum s) \<le> count_list ecs success) \<and>
         unat (votes (snd (completions ecs s))) =
           min (count_list ecs success) (unat (quorum s)) \<and>
         (ec \<noteq> success \<longrightarrow>
            handle_complete ec t = new_connection t \<and>
            votes (snd (handle_complete ec t)) = votes t \<and>
            (\<not> session_stopped t \<longrightarrow> handle_complete ec t = ([fetch_address], t)))"
proof -
  from assms(2) have "1 \<le> unat (quorum s)" by (simp add: word_le_nat_alt)
  with assms(1) have "unat (votes s) < unat (quorum s)" by simp
  from completions_count [OF this, of ecs] assms(1) show ?thesis
    by (simp add: handle_complete_error new_connection_ops)
qed

theorem quorum_termination_witness:
  "votes \<lparr>votes = 0, quorum = 2, session_stopped = False\<rparr> = 0 \<and>
   (1 :: uint32_t) \<le> quorum \<lparr>votes = 0, quorum = 2, session_stopped = False\<rparr> \<and>
   completions [success, channel_timeout, success]
     \<lparr>votes = 0, quorum = 2, session_stopped = False\<rparr> =
     (True, \<lparr>votes = 2, quorum = 2, session_stopped = False\<rparr>) \<and>
   completions [success, channel_timeout]
     \<lparr>votes = 0, quorum = 2, session_stopped = False\<rparr> =
     (False, \<lparr>votes = 1, quorum = 2, session_stopped = False\<rparr>)"
proof -
  let ?s = "\<lparr>votes = 0, quorum = 2, session_stopped = False\<rparr>"
  have a: "votes ?s = 0" by simp
  have b: "1 \<le> quorum ?s" by simp
  from quorum_termination [OF a b, of "[success, channel_timeout, success]"]
    quorum_termination [OF a b, of "[success, channel_timeout]"]
  show ?thesis by (simp add: handle_complete_def new_connection_def)
qed

section \<open>The channels of the block sync session\<close>

lemma handle_complete_launch:
  "(filter calls_back (fst (handle_complete ec s)) = [] \<and>
      (reports (fst (handle_complete ec s)) \<noteq> [] \<or> session_stopped s) \<or>
    filter calls_back (fst (handle_complete ec s)) = [fetch_address] \<and>
      reports (fst (handle_complete ec s)) = []) \<and>
   session_stopped (snd (handle_complete ec s)) = session_stopped s"
  by (simp add: handle_complete_def new_connection_def Let_def)

lemma callback_launch:
  "calls_back op \<Longrightarrow>
   (filter calls_back (fst (callback op ec s)) = [] \<and>
      (reports (fst (callback op ec s)) \<noteq> [] \<or> session_stopped s) \<or>
    length (filter calls_back (fst (callback op ec s))) = 1) \<and>
   session_stopped (snd (callback op ec s)) = session_stopped s"
  using handle_complete_launch [of ec s]
  by (cases op)
     (auto simp: start_syncing_def handle_connect_def handle_channel_start_def
        new_connection_def)

lemma session_start_serial: "serial (session_start ec s)"
  by (simp add: serial_def session_start_def launch_def handle_started_def new_connection_def)

lemma session_step_serial:
  assumes "serial c"
  shows "serial (session_step e c)"
proof (cases e)
  case stop
  with assms show ?thesis by (simp add: serial_def)
next
  case (completes i ec)
  show ?thesis
  proof (cases "i < length (in_flight c)")
    case False
    with completes assms show ?thesis by simp
  next
    case True
    with assms obtain op where op: "in_flight c = [op]" "i = 0" "calls_back op"
      by (cases "in_flight c") (auto simp: serial_def)
    let ?r = "callback op ec (session c)"
    from op completes have step: "session_step e c =
        \<lparr>session = snd ?r, in_flight = filter calls_back (fst ?r),
         reported = reported c @ reports (fst ?r)\<rparr>"
      by (simp add: launch_def)
    from callback_launch [OF op(3), of ec "session c"] show ?thesis
      unfolding step serial_def by (auto simp: list_all_iff)
  qed
qed

lemma session_run_serial: "serial c \<Longrightarrow> serial (session_run es c)"
  by (induction es arbitrary: c) (simp_all add: session_step_serial)

lemma redial_step:
  assumes "in_flight c = [op]" and "op = connect \<or> op = register_channel \<or> op = attach_block_sync"
    and "ec \<noteq> success" and "\<not> session_stopped (session c)"
  shows "session_step (completes 0 ec) c = c\<lparr>in_flight := [fetch_address]\<rparr>"
  using assms
  by (auto simp: launch_def handle_connect_def handle_channel_start_def handle_complete_def
      new_connection_def)

text \<open>
  Claim C6, amended. The block sync session dials one peer at a time. In every state
  that the session reaches after its start, whatever completes and with whatever code,
  at most one dial or channel is in flight, and exactly one is in flight as long as the
  session is not stopped and has not called its result handler. What is in flight is
  replaced as follows. A fetched address is followed by the connect to it, a connect by
  the registration of the channel, and the registration by the protocols on the channel.
  A failed connect, a failed start of the channel and a failed block sync each call
  \<open>new_connection\<close>, and so does a successful block sync that leaves the votes below the
  quorum, after it has been counted; in a session that is not stopped \<open>new_connection\<close>
  fetches the address of the next peer, and the state is otherwise unchanged. A
  successful block sync that reaches the quorum calls the result handler instead, and
  nothing is in flight any more.
\<close>

theorem one_channel_in_flight:
  assumes "c = session_run es (session_start ec0 s)"
  shows "length (in_flight c) \<le> 1 \<and>
         (\<not> session_stopped (session c) \<and> reported c = [] \<longrightarrow> length (in_flight c) = 1) \<and>
         start_syncing ec t = ([connect], t) \<and>
         handle_connect success t = ([register_channel], t) \<and>
         handle_channel_start success t =
           ([attach_ping, attach_address, attach_block_sync], t) \<and>
         (ec \<noteq> success \<longrightarrow>
            handle_connect ec t = new_connection t \<and>
            handle_channel_start ec t = new_connection t \<and>
            handle_complete ec t = new_connection t) \<and>
         handle_complete success t =
           (if votes t + 1 < ucast (quorum t) then new_connection (t\<lparr>votes := votes t + 1\<rparr>)
            else ([session_handler success], t\<lparr>votes := votes t + 1\<rparr>)) \<and>
         (\<not> session_stopped t \<longrightarrow> new_connection t = ([fetch_address], t)) \<and>
         (in_flight c = [fetch_address] \<longrightarrow>
            session_step (completes 0 ec) c = c\<lparr>in_flight := [connect]\<rparr>) \<and>
         (in_flight c = [connect] \<longrightarrow>
            session_step (completes 0 success) c = c\<lparr>in_flight := [register_channel]\<rparr>) \<and>
         (in_flight c = [register_channel] \<longrightarrow>
            session_step (completes 0 success) c = c\<lparr>in_flight := [attach_block_sync]\<rparr>) \<and>
         (in_flight c = [op] \<and>
          (op = connect \<or> op = register_channel \<or> op = attach_block_sync) \<and>
          ec \<noteq> success \<and> \<not> session_stopped (session c) \<longrightarrow>
            session_step (completes 0 ec) c = c\<lparr>in_flight := [fetch_address]\<rparr>) \<and>
         (in_flight c = [attach_block_sync] \<and> \<not> session_stopped (session c) \<and>
          votes (session c) + 1 < ucast (quorum (session c)) \<longrightarrow>
            session_step (completes 0 success) c =
              c\<lparr>session := (session c)\<lparr>votes := votes (session c) + 1\<rparr>,
                in_flight := [fetch_address]\<rparr>) \<and>
         (in_flight c = [attach_block_sync] \<and>
          \<not> votes (session c) + 1 < ucast (quorum (session c)) \<longrightarrow>
            session_step (completes 0 success) c =
              c\<lparr>session := (session c)\<lparr>votes := votes (session c) + 1\<rparr>,
                in_flight := [], reported := reported c @ [success]\<rparr>)"
proof -
  have "serial c" unfolding assms by (rule session_run_serial [OF session_start_serial])
  then have count: "length (in_flight c) \<le> 1"
    "\<not> session_stopped (session c) \<and> reported c = [] \<longrightarrow> length (in_flight c) = 1"
    by (simp_all add: serial_def)
  have handlers: "start_syncing ec t = ([connect], t)"
    "handle_connect success t = ([register_channel], t)"
    "handle_channel_start success t = ([attach_ping, attach_address, attach_block_sync], t)"
    "ec \<noteq> success \<longrightarrow>
       handle_connect ec t = new_connection t \<and>
       handle_channel_start ec t = new_connection t \<and>
       handle_complete ec t = new_connection t"
    "handle_complete success t =
       (if votes t + 1 < ucast (quorum t) then new_connection (t\<lparr>votes := votes t + 1\<rparr>)
        else ([session_handler success], t\<lparr>votes := votes t + 1\<rparr>))"
    "\<not> session_stopped t \<longrightarrow> new_connection t = ([fetch_address], t)"
    by (simp_all add: start_syncing_def handle_connect_def handle_channel_start_def
        handle_complete_def new_connection_def)
  have forward: "in_flight c = [fetch_address] \<longrightarrow>
      session_step (completes 0 ec) c = c\<lparr>in_flight := [connect]\<rparr>"
    "in_flight c = [connect] \<longrightarrow>
      session_step (completes 0 success) c = c\<lparr>in_flight := [register_channel]\<rparr>"
    "in_flight c = [register_channel] \<longrightarrow>
      session_step (completes 0 success) c = c\<lparr>in_flight := [attach_block_sync]\<rparr>"
    by (simp_all add: launch_def start_syncing_def handle_connect_def
        handle_channel_start_def)
  have redial: "in_flight c = [op] \<and>
      (op = connect \<or> op = register_channel \<or> op = attach_block_sync) \<and>
      ec \<noteq> success \<and> \<not> session_stopped (session c) \<longrightarrow>
        session_step (completes 0 ec) c = c\<lparr>in_flight := [fetch_address]\<rparr>"
    using redial_step [of c op ec] by blast
  have counted: "in_flight c = [attach_block_sync] \<and> \<not> session_stopped (session c) \<and>
      votes (session c) + 1 < ucast (quorum (session c)) \<longrightarrow>
        session_step (completes 0 success) c =
          c\<lparr>session := (session c)\<lparr>votes := votes (session c) + 1\<rparr>,
            in_flight := [fetch_address]\<rparr>"
    "in_flight c = [attach_block_sync] \<and>
      \<not> votes (session c) + 1 < ucast (quorum (session c)) \<longrightarrow>
        session_step (completes 0 success) c =
          c\<lparr>session := (session c)\<lparr>votes := votes (session c) + 1\<rparr>,
            in_flight := [], reported := reported c @ [success]\<rparr>"
    by (simp_all add: launch_def handle_complete_def new_connection_def)
  from count handlers forward redial counted show ?thesis by blast
qed

text \<open>
  The session never keeps several channels in flight: with a quorum of two, no sequence
  of events leads to a state with two or more operations in flight.
\<close>

theorem concurrent_channels_counterexample:
  "\<not> (\<exists>es. 2 \<le> length (in_flight (session_run es
           (session_start success \<lparr>votes = 0, quorum = 2, session_stopped = False\<rparr>))))"
proof
  assume "\<exists>es. 2 \<le> length (in_flight (session_run es
           (session_start success \<lparr>votes = 0, quorum = 2, session_stopped = False\<rparr>)))"
  then obtain es where "2 \<le> length (in_flight (session_run es
           (session_start success \<lparr>votes = 0, quorum = 2, session_stopped = False\<rparr>)))" ..
  moreover have "serial (session_run es
           (session_start success \<lparr>votes = 0, quorum = 2, session_stopped = False\<rparr>))"
    by (rule session_run_serial [OF session_start_serial])
  ultimately show False by (simp add: serial_def)
qed

text \<open>
  The scenario of the quorum. The first peer succeeds and the session dials again; the
  block sync of the second peer is in flight. It fails, and the session has dialled a
  third time: the fetch of the next address is the only operation in flight, and the
  vote of the first peer is kept.
\<close>

theorem one_channel_in_flight_witness:
  "session_run
     [completes 0 success, completes 0 success, completes 0 success, completes 0 success,
      completes 0 success, completes 0 success, completes 0 success]
     (session_start success \<lparr>votes = 0, quorum = 2, session_stopped = False\<rparr>) =
     \<lparr>session = \<lparr>votes = 1, quorum = 2, session_stopped = False\<rparr>,
      in_flight = [attach_block_sync], reported = []\<rparr> \<and>
   channel_timeout \<noteq> success \<and>
   session_step (completes 0 channel_timeout)
     \<lparr>session = \<lparr>votes = 1, quorum = 2, session_stopped = False\<rparr>,
      in_flight = [attach_block_sync], reported = []\<rparr> =
     \<lparr>session = \<lparr>votes = 1, quorum = 2, session_stopped = False\<rparr>,
      in_flight = [fetch_address], reported = []\<rparr> \<and>
   handle_complete channel_timeout \<lparr>votes = 1, quorum = 2, session_stopped = False\<rparr> =
     ([fetch_address], \<lparr>votes = 1, quorum = 2, session_stopped = False\<rparr>)"
proof -
  let ?t = "\<lparr>votes = 1, quorum = 2, session_stopped = False\<rparr>"
  let ?c = "\<lparr>session = ?t, in_flight = [attach_block_sync], reported = []\<rparr>"
  have r: "?c = session_run
     [completes 0 success, completes 0 success, completes 0 success, completes 0 success,
      completes 0 success, completes 0 success, completes 0 success]
     (session_start success \<lparr>votes = 0, quorum = 2, session_stopped = False\<rparr>)"
    by (simp add: session_start_def launch_def handle_started_def new_connection_def
        start_syncing_def handle_connect_def handle_channel_start_def handle_complete_def)
  have e: "channel_timeout \<noteq> success" by simp
  note inst = one_channel_in_flight [OF r,
      where ec = channel_timeout and t = ?t and op = attach_block_sync]
  from inst e have "in_flight ?c = [attach_block_sync] \<and>
      (attach_block_sync = connect \<or> attach_block_sync = register_channel \<or>
       attach_block_sync = attach_block_sync) \<and>
      channel_timeout \<noteq> success \<and> \<not> session_stopped (session ?c) \<longrightarrow>
      session_step (completes 0 channel_timeout) ?c = ?c\<lparr>in_flight := [fetch_address]\<rparr>"
    by blast
  then have step: "session_step (completes 0 channel_timeout) ?c =
      \<lparr>session = ?t, in_flight = [fetch_address], reported = []\<rparr>"
    by simp
  from inst e have "handle_complete channel_timeout ?t = new_connection ?t"
    and "\<not> session_stopped ?t \<longrightarrow> new_connection ?t = ([fetch_address], ?t)"
    by blast+
  then have handler: "handle_complete channel_timeout ?t = ([fetch_address], ?t)" by simp
  from r [symmetric] e step handler show ?thesis by blast
qed

section \<open>The command loop of the console\<close>

lemma c_str_literal: "c_str literal_0x03 = []"
  by (simp add: c_str_def literal_0x03_def)

lemma equals_literal_iff: "equals_c_str command literal_0x03 \<longleftrightarrow> command = []"
  by (simp add: equals_c_str_def c_str_literal)

text \<open>
  Claim C9. The claim is that the command loop ends, for the shutdown of the node, if
  and only if the line is the four characters of the literal \<open>"\0x03"\<close> or the line
  without its leading and trailing white space is \<open>stop\<close>, and that every other line
  is a query for a payment address. The code does compare the line with that literal,
  but as a C string, which ends before the NUL character that the literal begins with:
  the comparison holds of the empty line and of no other. So the loop ends if and only
  if the line is empty or trims to \<open>stop\<close>. The line of the four characters of the
  literal does not end the loop but is given to \<open>payment_address\<close>, as is the line of
  the control character ETX; the empty line ends the loop.
\<close>

theorem literal_comparison_empty:
  "command_step payment_address command =
     (if command = [] \<or> trim_copy command = ''stop'' then shutting_down
      else case payment_address (trim_copy command) of
             None \<Rightarrow> invalid_address
           | Some address \<Rightarrow> fetch_history address) \<and>
   equals_c_str command literal_0x03 = (command = []) \<and>
   command_step Some [CHR 0x00, CHR ''x'', CHR ''0'', CHR ''3''] =
     fetch_history [CHR 0x00, CHR ''x'', CHR ''0'', CHR ''3''] \<and>
   command_step Some [CHR 0x03] = fetch_history [CHR 0x03] \<and>
   command_step Some [] = shutting_down"
proof -
  have step: "command_step pa c =
     (if c = [] \<or> trim_copy c = ''stop'' then shutting_down
      else case pa (trim_copy c) of
             None \<Rightarrow> invalid_address
           | Some address \<Rightarrow> fetch_history address)"
    for pa :: "string \<Rightarrow> 'b option" and c
    by (simp add: command_step_def equals_literal_iff Let_def)
  have "trim_copy [CHR 0x00, CHR ''x'', CHR ''0'', CHR ''3''] =
      [CHR 0x00, CHR ''x'', CHR ''0'', CHR ''3'']"
    "trim_copy [CHR 0x03] = [CHR 0x03]" "trim_copy [] = []"
    by (simp_all add: trim_copy_def is_space_def)
  then show ?thesis by (simp add: step equals_literal_iff)
qed

theorem literal_comparison_empty_witness:
  "command_step Some '' stop  '' = shutting_down \<and>
   command_step Some ''stop it'' = fetch_history ''stop it'' \<and>
   equals_c_str [CHR 0x00, CHR ''x'', CHR ''0'', CHR ''3''] literal_0x03 = False"
  using literal_comparison_empty [of Some "'' stop  ''"]
    literal_comparison_empty [of Some "''stop it''"]
    literal_comparison_empty [of Some "[CHR 0x00, CHR ''x'', CHR ''0'', CHR ''3'']"]
  by (simp add: trim_copy_def is_space_def)

end
